theory Spec2Isabelle
  imports Complex_Main "HOL-Library.Multiset" "HOL-Library.Sublist"
begin

section \<open>The file organizer: data model\<close>

text \<open>
  A shallow embedding of \<^verbatim>\<open>file_organizer.py\<close> (class \<^verbatim>\<open>SmartFileOrganizer\<close>).

  Paths and names are strings. The characters of a Python string are modelled by
  Isabelle characters, that is by the code points below 256.

  The two requests to the language model are outside the program. Each call is
  represented by its outcome: either some exception was raised inside the
  \<^verbatim>\<open>try\<close> block before the text of the answer was available (timeout, transport
  error, HTTP error status, a body that is not the expected JSON), or the answer's
  \<^verbatim>\<open>content\<close> string was obtained.
\<close>

type_synonym path = string

datatype response = Raised | Content string

datatype error =
  ZeroDivisionError | IndexError | FileExistsError | NotADirectoryError | PermissionError

text \<open>One element of \<^verbatim>\<open>file_data\<close>: \<^verbatim>\<open>(file_path, category, new_name, keywords)\<close>.\<close>

type_synonym file_record = "path \<times> string \<times> string \<times> string list"

section \<open>String helpers of the Python library\<close>

text \<open>\<^verbatim>\<open>str.isspace\<close> on one character, for code points below 256; this is also the
  class \<^verbatim>\<open>\s\<close> of \<^verbatim>\<open>re\<close> on \<^verbatim>\<open>str\<close> patterns.\<close>

definition is_space :: "char \<Rightarrow> bool" where
  "is_space c =
     (let n = (of_char c :: nat)
      in (9 \<le> n \<and> n \<le> 13) \<or> (28 \<le> n \<and> n \<le> 32) \<or> n = 133 \<or> n = 160)"

definition newline :: char where
  "newline = CHR 0x0A"

text \<open>\<^verbatim>\<open>s.strip()\<close>.\<close>

definition strip :: "string \<Rightarrow> string" where
  "strip s = rev (dropWhile is_space (rev (dropWhile is_space s)))"

text \<open>The characters removed by \<^verbatim>\<open>re.sub(r'[<>:"/\\|?*]', '', s)\<close>.\<close>

definition illegal_chars :: "char list" where
  "illegal_chars =
     [CHR ''<'', CHR ''>'', CHR '':'', CHR 0x22, CHR ''/'', CHR 0x5C, CHR ''|'', CHR ''?'',
      CHR ''*'']"

definition sanitize :: "string \<Rightarrow> string" where
  "sanitize s = filter (\<lambda>c. c \<notin> set illegal_chars) s"

text \<open>\<^verbatim>\<open>s.split(sep)\<close> for a separator of one character.\<close>

fun split_on :: "char \<Rightarrow> string \<Rightarrow> string list" where
  "split_on sep [] = [[]]"
| "split_on sep (c # cs) =
     (if c = sep then [] # split_on sep cs
      else (case split_on sep cs of
              [] \<Rightarrow> [[c]]
            | w # ws \<Rightarrow> (c # w) # ws))"

text \<open>\<^verbatim>\<open>pat in s\<close> for strings.\<close>

fun contains :: "string \<Rightarrow> string \<Rightarrow> bool" where
  "contains pat [] = (pat = [])"
| "contains pat (c # cs) = (prefix pat (c # cs) \<or> contains pat cs)"

text \<open>The text that follows the first occurrence of a label.\<close>

fun find_after :: "string \<Rightarrow> string \<Rightarrow> string option" where
  "find_after lbl [] = (if lbl = [] then Some [] else None)"
| "find_after lbl (c # cs) =
     (if prefix lbl (c # cs) then Some (drop (length lbl) (c # cs)) else find_after lbl cs)"

text \<open>
  Group 1 of \<^verbatim>\<open>re.search(label + r'\s*(.+)', text)\<close>, or \<open>None\<close> when there is no match.
  After the label, \<^verbatim>\<open>\s*\<close> takes all the white space it can and \<^verbatim>\<open>(.+)\<close> runs to the
  end of the line. When only white space follows the label, backtracking makes
  \<^verbatim>\<open>\s*\<close> give back characters until \<^verbatim>\<open>.\<close> can match one: the group is then the last
  character that is not a newline, and there is no match when there is none.
\<close>

definition field_match :: "string \<Rightarrow> string \<Rightarrow> string option" where
  "field_match lbl text =
     (case find_after lbl text of
        None \<Rightarrow> None
      | Some rest \<Rightarrow>
          (let tail = dropWhile is_space rest
           in if tail \<noteq> [] then Some (takeWhile (\<lambda>c. c \<noteq> newline) tail)
              else (case dropWhile (\<lambda>c. c = newline) (rev rest) of
                      [] \<Rightarrow> None
                    | c # _ \<Rightarrow> Some [c])))"

text \<open>
  \<^verbatim>\<open>os.path.splitext\<close> (POSIX): the extension starts at the last dot of the last
  path component, unless only dots precede it in that component.
\<close>

definition splitext :: "string \<Rightarrow> string \<times> string" where
  "splitext p =
     (let comp = rev (takeWhile (\<lambda>c. c \<noteq> CHR ''/'') (rev p));
          ext_len = Suc (length (takeWhile (\<lambda>c. c \<noteq> CHR ''.'') (rev comp)));
          root_len = length p - ext_len
      in if CHR ''.'' \<in> set comp
            \<and> (\<exists>c \<in> set (take (length comp - ext_len) comp). c \<noteq> CHR ''.'')
         then (take root_len p, drop root_len p)
         else (p, []))"

text \<open>\<^verbatim>\<open>str(n)\<close> for a natural number.\<close>

fun str_nat :: "nat \<Rightarrow> string" where
  "str_nat n =
     (if n < 10 then [char_of (48 + n)]
      else str_nat (n div 10) @ [char_of (48 + n mod 10)])"

declare str_nat.simps [simp del]

text \<open>\<^verbatim>\<open>Path(p).name\<close>: the last component.\<close>

definition path_name :: "path \<Rightarrow> string" where
  "path_name p = rev (takeWhile (\<lambda>c. c \<noteq> CHR ''/'') (rev p))"

text \<open>
  \<^verbatim>\<open>p / name\<close> of \<^verbatim>\<open>pathlib\<close>, for a \<open>name\<close> without a separator (every name joined
  by the program is sanitized or is the last component of a path): an empty name and
  the name \<^verbatim>\<open>.\<close> leave \<open>p\<close> as it is.
\<close>

definition joinpath :: "path \<Rightarrow> string \<Rightarrow> path" where
  "joinpath p name = (if name = [] \<or> name = ''.'' then p else p @ ''/'' @ name)"

section \<open>\<^verbatim>\<open>analyze_filename\<close>\<close>

text \<open>
  The first argument is the outcome of the request made for this file. A raised
  exception is caught by the \<^verbatim>\<open>except\<close> clause, which returns the fallback.
\<close>

definition analyze_filename :: "response \<Rightarrow> string \<Rightarrow> string \<times> string \<times> string list" where
  "analyze_filename resp filename =
     (let (name, ext) = splitext filename
      in case resp of
           Raised \<Rightarrow> (''Misc'', filename, [])
         | Content result \<Rightarrow>
             (let category_match = field_match ''CATEGORY:'' result;
                  keywords_match = field_match ''KEYWORDS:'' result;
                  name_match = field_match ''NEWNAME:'' result;
                  category = (case category_match of Some g \<Rightarrow> strip g | None \<Rightarrow> ''Misc'');
                  keywords = (case keywords_match of
                                Some g \<Rightarrow> map strip (split_on (CHR '','') g)
                              | None \<Rightarrow> []);
                  new_name = (case name_match of Some g \<Rightarrow> strip g | None \<Rightarrow> name)
              in (sanitize category, sanitize new_name @ ext, keywords)))"

section \<open>\<^verbatim>\<open>merge_categories\<close>\<close>

text \<open>
  \<^verbatim>\<open>category_keywords\<close> is a dictionary from category to a set of keywords. A Python
  dictionary iterates in insertion order, so it is an association list in the order
  in which the categories were first seen.
\<close>

type_synonym profile = "(string \<times> string set) list"

fun kw_update :: "profile \<Rightarrow> string \<Rightarrow> string list \<Rightarrow> profile" where
  "kw_update [] c ks = [(c, set ks)]"
| "kw_update ((c', s) # m) c ks =
     (if c' = c then (c', s \<union> set ks) # m else (c', s) # kw_update m c ks)"

fun collect_keywords :: "profile \<Rightarrow> file_record list \<Rightarrow> profile" where
  "collect_keywords m [] = m"
| "collect_keywords m ((_, category, _, keywords) # file_data) =
     collect_keywords (kw_update m category keywords) file_data"

definition category_keywords :: "file_record list \<Rightarrow> profile" where
  "category_keywords file_data = collect_keywords [] file_data"

text \<open>
  \<^verbatim>\<open>len(keywords1.intersection(keywords2)) / len(keywords1.union(keywords2))\<close>.
  Python raises \<^verbatim>\<open>ZeroDivisionError\<close> when the union is empty. The quotient is kept
  exact here; Python rounds it to a double and compares it with the double nearest to
  \<open>0.3\<close>, which gives the same answer as the exact comparison with \<open>3/10\<close> as long as
  the union has fewer than \<open>2\<^sup>5\<^sup>0\<close> elements.
\<close>

definition similarity :: "string set \<Rightarrow> string set \<Rightarrow> error + rat" where
  "similarity keywords1 keywords2 =
     (if card (keywords1 \<union> keywords2) = 0 then Inl ZeroDivisionError
      else Inr (of_nat (card (keywords1 \<inter> keywords2)) / of_nat (card (keywords1 \<union> keywords2))))"

text \<open>The inner loop over \<^verbatim>\<open>category_keywords.items()\<close>, building \<^verbatim>\<open>similar_cats\<close>.\<close>

fun similar_loop ::
  "string \<Rightarrow> string set \<Rightarrow> string set \<Rightarrow> profile \<Rightarrow> string list \<Rightarrow> error + string list" where
  "similar_loop cat1 keywords1 processed [] similar_cats = Inr similar_cats"
| "similar_loop cat1 keywords1 processed ((cat2, keywords2) # items) similar_cats =
     (if cat2 \<noteq> cat1 \<and> cat2 \<notin> processed then
        (case similarity keywords1 keywords2 of
           Inl e \<Rightarrow> Inl e
         | Inr s \<Rightarrow>
             similar_loop cat1 keywords1 processed items
               (if s > 3 / 10 then similar_cats @ [cat2] else similar_cats))
      else similar_loop cat1 keywords1 processed items similar_cats)"

text \<open>
  \<^verbatim>\<open>get_merged_category_name\<close>. The first argument is the naming request: the outcome
  of the call made for a list of categories. \<^verbatim>\<open>categories[0]\<close> on an empty list raises
  \<^verbatim>\<open>IndexError\<close>.
\<close>

definition get_merged_category_name :: "(string list \<Rightarrow> response) \<Rightarrow> string list \<Rightarrow> error + string"
  where
  "get_merged_category_name namer categories =
     (if length categories = 1 then Inr (hd categories)
      else (case namer categories of
              Content merged_name \<Rightarrow> Inr (sanitize (strip merged_name))
            | Raised \<Rightarrow> (case categories of [] \<Rightarrow> Inl IndexError | c # _ \<Rightarrow> Inr c)))"

text \<open>
  The state of the outer loop. \<open>merged\<close> is the dictionary \<^verbatim>\<open>merged_categories\<close>
  (\<^verbatim>\<open>defaultdict(list)\<close>, in insertion order) and \<open>processed\<close> the set
  \<^verbatim>\<open>processed_categories\<close>. \<open>clusters\<close> is not a variable of the program: it records,
  for each seed, the pair \<^verbatim>\<open>(merged_name, similar_cats)\<close> of that iteration, so that
  properties of the clusters can be stated.
\<close>

record merge_state =
  merged :: "(string \<times> (path \<times> string) list) list"
  processed :: "string set"
  clusters :: "(string \<times> string list) list"

text \<open>\<^verbatim>\<open>d[k].append(v)\<close> on a \<^verbatim>\<open>defaultdict(list)\<close>.\<close>

fun dict_append :: "('k \<times> 'v list) list \<Rightarrow> 'k \<Rightarrow> 'v \<Rightarrow> ('k \<times> 'v list) list" where
  "dict_append [] k v = [(k, [v])]"
| "dict_append ((k', vs) # d) k v =
     (if k' = k then (k', vs @ [v]) # d else (k', vs) # dict_append d k v)"

text \<open>The loop over \<^verbatim>\<open>file_data\<close> that appends the files of one category.\<close>

fun append_files ::
  "string \<Rightarrow> string \<Rightarrow> file_record list \<Rightarrow> (string \<times> (path \<times> string) list) list
     \<Rightarrow> (string \<times> (path \<times> string) list) list" where
  "append_files merged_name cat [] d = d"
| "append_files merged_name cat ((file_path, category, new_name, _) # file_data) d =
     append_files merged_name cat file_data
       (if category = cat then dict_append d merged_name (file_path, new_name) else d)"

text \<open>The loop \<^verbatim>\<open>for cat in similar_cats\<close>.\<close>

fun absorb :: "string \<Rightarrow> file_record list \<Rightarrow> string list \<Rightarrow> merge_state \<Rightarrow> merge_state" where
  "absorb merged_name file_data [] st = st"
| "absorb merged_name file_data (cat # similar_cats) st =
     absorb merged_name file_data similar_cats
       (st\<lparr>processed := insert cat (processed st),
           merged := append_files merged_name cat file_data (merged st)\<rparr>)"

text \<open>The outer loop over \<^verbatim>\<open>category_keywords.items()\<close>.\<close>

fun merge_loop ::
  "(string list \<Rightarrow> response) \<Rightarrow> file_record list \<Rightarrow> profile \<Rightarrow> profile \<Rightarrow> merge_state
     \<Rightarrow> error + merge_state" where
  "merge_loop namer file_data all_items [] st = Inr st"
| "merge_loop namer file_data all_items ((cat1, keywords1) # items) st =
     (if cat1 \<in> processed st then merge_loop namer file_data all_items items st
      else
        (case similar_loop cat1 keywords1 (processed st) all_items [cat1] of
           Inl e \<Rightarrow> Inl e
         | Inr similar_cats \<Rightarrow>
             (case get_merged_category_name namer similar_cats of
                Inl e \<Rightarrow> Inl e
              | Inr merged_name \<Rightarrow>
                  merge_loop namer file_data all_items items
                    (absorb merged_name file_data similar_cats
                       (st\<lparr>clusters := clusters st @ [(merged_name, similar_cats)]\<rparr>)))))"

definition merge_run :: "(string list \<Rightarrow> response) \<Rightarrow> file_record list \<Rightarrow> error + merge_state"
  where
  "merge_run namer file_data =
     merge_loop namer file_data (category_keywords file_data) (category_keywords file_data)
       \<lparr>merged = [], processed = {}, clusters = []\<rparr>"

definition merge_categories ::
  "(string list \<Rightarrow> response) \<Rightarrow> file_record list
     \<Rightarrow> error + (string \<times> (path \<times> string) list) list" where
  "merge_categories namer file_data = map_sum id merged (merge_run namer file_data)"

section \<open>\<^verbatim>\<open>organize_files\<close>\<close>

subsection \<open>The file system and the library calls\<close>

text \<open>
  An object of the file system is identified by the names on the way from the root to
  it; the root is the empty list. The file system is what a run sees of it: the regular
  files and the directories. There are no symbolic links, names are compared as they
  are written (a POSIX file system), and nothing but the run changes the file system
  while it runs.
\<close>

type_synonym node = "string list"

record fsys =
  fs_files :: "node set"
  fs_dirs :: "node set"

text \<open>The components of an absolute path. \<^verbatim>\<open>pathlib\<close> drops empty components.\<close>

definition parts :: "path \<Rightarrow> string list" where
  "parts p = filter (\<lambda>c. c \<noteq> []) (split_on (CHR ''/'') p)"

text \<open>
  The resolution of a path by the operating system, one component after the other,
  starting from the object \<open>cur\<close>. A component is looked up in a directory only; \<^verbatim>\<open>.\<close>
  is the directory itself and \<^verbatim>\<open>..\<close> its parent (the root is its own parent); a name is
  the file or directory of that name in the directory. The result is \<open>None\<close> when
  the resolution fails.
\<close>

fun walk :: "fsys \<Rightarrow> node \<Rightarrow> string list \<Rightarrow> node option" where
  "walk fs cur [] = Some cur"
| "walk fs cur (c # cs) =
     (if cur \<notin> fs_dirs fs then None
      else if c = ''.'' then walk fs cur cs
      else if c = ''..'' then walk fs (butlast cur) cs
      else if cur @ [c] \<in> fs_files fs \<or> cur @ [c] \<in> fs_dirs fs then walk fs (cur @ [c]) cs
      else None)"

definition lookup :: "fsys \<Rightarrow> path \<Rightarrow> node option" where
  "lookup fs p = walk fs [] (parts p)"

text \<open>
  \<^verbatim>\<open>p.exists()\<close> and \<^verbatim>\<open>p.is_file()\<close>. The calls return \<^verbatim>\<open>False\<close> for a path that does
  not resolve; they raise for the paths of \<open>raises\<close>, on which the status request
  fails with another error of the operating system (a refused permission).
\<close>

definition exists_path :: "path set \<Rightarrow> fsys \<Rightarrow> path \<Rightarrow> error + bool" where
  "exists_path raises fs p =
     (if p \<in> raises then Inl PermissionError else Inr (lookup fs p \<noteq> None))"

definition is_file :: "path set \<Rightarrow> fsys \<Rightarrow> path \<Rightarrow> error + bool" where
  "is_file raises fs p =
     (if p \<in> raises then Inl PermissionError
      else Inr (case lookup fs p of None \<Rightarrow> False | Some q \<Rightarrow> q \<in> fs_files fs))"

text \<open>
  \<^verbatim>\<open>p.mkdir(parents=True, exist_ok=True)\<close>, one component after the other from the
  object \<open>cur\<close>. A directory that exists is left as it is and a missing one is created;
  the call raises when a component is a regular file (\<^verbatim>\<open>FileExistsError\<close> for the last
  one, \<^verbatim>\<open>NotADirectoryError\<close> before it) and when the environment refuses the creation
  of a missing directory (the set \<open>refused\<close>).
\<close>

fun make_dirs :: "node set \<Rightarrow> fsys \<Rightarrow> node \<Rightarrow> string list \<Rightarrow> error + fsys" where
  "make_dirs refused fs cur [] = Inr fs"
| "make_dirs refused fs cur (c # cs) =
     (if c = ''.'' then make_dirs refused fs cur cs
      else if c = ''..'' then make_dirs refused fs (butlast cur) cs
      else if cur @ [c] \<in> fs_files fs
        then Inl (if cs = [] then FileExistsError else NotADirectoryError)
      else if cur @ [c] \<in> fs_dirs fs then make_dirs refused fs (cur @ [c]) cs
      else if cur @ [c] \<in> refused then Inl PermissionError
      else make_dirs refused (fs\<lparr>fs_dirs := insert (cur @ [c]) (fs_dirs fs)\<rparr>) (cur @ [c]) cs)"

definition mkdir :: "node set \<Rightarrow> fsys \<Rightarrow> path \<Rightarrow> error + fsys" where
  "mkdir refused fs p = make_dirs refused fs [] (parts p)"

text \<open>
  The object that a file created at the path \<open>p\<close> is: its name in the directory that
  the rest of the path resolves to, if there is one.
\<close>

definition new_entry :: "fsys \<Rightarrow> path \<Rightarrow> node option" where
  "new_entry fs p =
     (case rev (parts p) of
        [] \<Rightarrow> None
      | name # up \<Rightarrow>
          if name = ''.'' \<or> name = ''..'' then None
          else (case walk fs [] (rev up) of
                  None \<Rightarrow> None
                | Some d \<Rightarrow> if d \<in> fs_dirs fs then Some (d @ [name]) else None))"

text \<open>
  \<^verbatim>\<open>shutil.move(src, dst)\<close> for a regular file \<open>src\<close> and a destination that does not
  exist, which is how the program calls it. The call raises when the source is not a
  regular file or the directory of the destination does not exist. Otherwise what the
  environment does with the move is one of three: it completes; it raises and changes
  nothing; it raises after a copy of the file has been left at the destination (a
  move across devices that fails between the copy and the removal of the source). The
  result is whether the call returned normally, and the file system afterwards.
\<close>

datatype move_result = Completes | Raises | RaisesAfterCopy

definition shutil_move ::
  "(path \<Rightarrow> path \<Rightarrow> move_result) \<Rightarrow> fsys \<Rightarrow> path \<Rightarrow> path \<Rightarrow> bool \<times> fsys" where
  "shutil_move mover fs src dst =
     (case lookup fs src of
        None \<Rightarrow> (False, fs)
      | Some s \<Rightarrow>
          if s \<notin> fs_files fs then (False, fs)
          else (case new_entry fs dst of
                  None \<Rightarrow> (False, fs)
                | Some q \<Rightarrow>
                    (case mover src dst of
                       Completes \<Rightarrow> (True, fs\<lparr>fs_files := insert q (fs_files fs - {s})\<rparr>)
                     | Raises \<Rightarrow> (False, fs)
                     | RaisesAfterCopy \<Rightarrow> (False, fs\<lparr>fs_files := insert q (fs_files fs)\<rparr>))))"

text \<open>
  Everything outside the program that a run depends on: the file system; the sequence
  produced by \<^verbatim>\<open>source_path.rglob("*")\<close> (what a real run has created before the
  traversal is a directory, which the test \<^verbatim>\<open>is_file()\<close> drops, so the sequence is not
  made to depend on the mode); the outcome of the classification request
  made for each file and of the naming request made for each list of categories; what
  the environment does with each move; the paths on which a status request raises; the
  directories whose creation is refused; and whether \<^verbatim>\<open>console.print\<close> raises for the
  report of a file (it parses the text as markup and encodes it for the terminal),
  given what the text is made of: the mode, the name of the source, the category and
  the name of the destination.
\<close>

record world =
  w_fs :: fsys
  w_rglob :: "path \<Rightarrow> path list"
  w_llm :: "path \<Rightarrow> response"
  w_namer :: "string list \<Rightarrow> response"
  w_mover :: "path \<Rightarrow> path \<Rightarrow> move_result"
  w_stat_raises :: "path set"
  w_mkdir_refused :: "node set"
  w_print_raises :: "bool \<Rightarrow> string \<Rightarrow> string \<Rightarrow> string \<Rightarrow> bool"

subsection \<open>The state of a run\<close>

text \<open>The dictionary \<^verbatim>\<open>stats\<close>.\<close>

record stats =
  st_processed :: nat
  st_moved :: nat
  st_errors :: nat

text \<open>
  What happened in the iteration for one file: the group, the source, the suggested
  name, the file system at the beginning of the iteration, the destination that was
  resolved (none when the existence test raised), whether \<^verbatim>\<open>shutil.move\<close> returned
  normally, and whether the iteration raised (and was counted in \<^verbatim>\<open>stats["errors"]\<close>).
\<close>

record decision =
  d_category :: string
  d_source :: path
  d_name :: string
  d_seen :: fsys
  d_dest :: "path option"
  d_moved :: bool
  d_raised :: bool

text \<open>
  The state of a run: the statistics and the file system. \<open>r_trace\<close> is not a variable
  of the program: it records what happened for each file, in order.
\<close>

record run_state =
  r_stats :: stats
  r_fs :: fsys
  r_trace :: "decision list"

definition add_moved :: "run_state \<Rightarrow> run_state" where
  "add_moved st = st\<lparr>r_stats := (r_stats st)\<lparr>st_moved := st_moved (r_stats st) + 1\<rparr>\<rparr>"

definition add_error :: "run_state \<Rightarrow> run_state" where
  "add_error st = st\<lparr>r_stats := (r_stats st)\<lparr>st_errors := st_errors (r_stats st) + 1\<rparr>\<rparr>"

definition log_decision :: "decision \<Rightarrow> run_state \<Rightarrow> run_state" where
  "log_decision d st = st\<lparr>r_trace := r_trace st @ [d]\<rparr>"

subsection \<open>The analysis loop\<close>

text \<open>The exclusion test of the traversal loop.\<close>

definition excluded :: "path \<Rightarrow> bool" where
  "excluded file_path =
     (\<exists>p \<in> set [''.git'', ''__pycache__'', ''.pytest_cache'']. contains p file_path)"

text \<open>
  The loop that analyses the files; the second component of the accumulator counts
  \<^verbatim>\<open>stats["processed"]\<close>. The loop is outside any \<^verbatim>\<open>try\<close> block: when \<^verbatim>\<open>is_file()\<close>
  raises, the exception leaves the function.
\<close>

fun collect ::
  "world \<Rightarrow> fsys \<Rightarrow> path list \<Rightarrow> file_record list \<times> nat
     \<Rightarrow> error + file_record list \<times> nat" where
  "collect w fs [] acc = Inr acc"
| "collect w fs (file_path # ps) (all_file_data, n) =
     (case is_file (w_stat_raises w) fs file_path of
        Inl e \<Rightarrow> Inl e
      | Inr regular \<Rightarrow>
          if regular \<and> \<not> excluded file_path then
            (let (category, new_name, keywords) =
                   analyze_filename (w_llm w file_path) (path_name file_path)
             in collect w fs ps
                  (all_file_data @ [(file_path, category, new_name, keywords)], n + 1))
          else collect w fs ps (all_file_data, n))"

subsection \<open>The loop over the groups and their files\<close>

text \<open>
  The \<^verbatim>\<open>while new_file_path.exists()\<close> loop. It is left by an exception when the
  existence test raises. It does not terminate when every candidate exists, in which
  case the result is \<open>None\<close>.
\<close>

partial_function (option) dedup_loop ::
  "path set \<Rightarrow> fsys \<Rightarrow> path \<Rightarrow> string \<Rightarrow> path \<Rightarrow> nat \<Rightarrow> (error + path) option" where
  "dedup_loop raises fs category_path new_name new_file_path counter =
     (case exists_path raises fs new_file_path of
        Inl e \<Rightarrow> Some (Inl e)
      | Inr found \<Rightarrow>
          if found then
            dedup_loop raises fs category_path new_name
              (joinpath category_path
                 (fst (splitext new_name) @ ''_'' @ str_nat counter @ snd (splitext new_name)))
              (counter + 1)
          else Some (Inr new_file_path))"

declare dedup_loop.simps [code]

definition resolve_destination ::
  "path set \<Rightarrow> fsys \<Rightarrow> path \<Rightarrow> string \<Rightarrow> (error + path) option" where
  "resolve_destination raises fs category_path new_name =
     dedup_loop raises fs category_path new_name (joinpath category_path new_name) 1"

text \<open>
  The body of the loop over the files of a group: the \<^verbatim>\<open>try\<close> block and its
  \<^verbatim>\<open>except\<close> clause. Inside the block the existence test, the move and the report can
  raise; each of them is followed by the increment of \<^verbatim>\<open>stats["errors"]\<close> and ends the
  iteration. A report that raises after the move leaves \<^verbatim>\<open>stats["moved"]\<close>
  incremented.
\<close>

definition organize_one ::
  "world \<Rightarrow> bool \<Rightarrow> string \<Rightarrow> path \<Rightarrow> path \<Rightarrow> string \<Rightarrow> run_state \<Rightarrow> run_state option" where
  "organize_one w dry_run category category_path source_path new_name st =
     (let entry = (\<lambda>dest moved raised.
            \<lparr>d_category = category, d_source = source_path, d_name = new_name,
             d_seen = r_fs st, d_dest = dest, d_moved = moved, d_raised = raised\<rparr>)
      in case resolve_destination (w_stat_raises w) (r_fs st) category_path new_name of
           None \<Rightarrow> None
         | Some (Inl e) \<Rightarrow> Some (add_error (log_decision (entry None False True) st))
         | Some (Inr new_file_path) \<Rightarrow>
             (let report_raises =
                    w_print_raises w dry_run (path_name source_path) category
                      (path_name new_file_path)
              in if dry_run then
                   (if report_raises
                    then Some (add_error
                                (log_decision (entry (Some new_file_path) False True) st))
                    else Some (log_decision (entry (Some new_file_path) False False) st))
                 else
                   (case shutil_move (w_mover w) (r_fs st) source_path new_file_path of
                      (False, fs') \<Rightarrow>
                        Some (add_error
                               (log_decision (entry (Some new_file_path) False True)
                                  (st\<lparr>r_fs := fs'\<rparr>)))
                    | (True, fs') \<Rightarrow>
                        (if report_raises
                         then Some (add_error
                                     (log_decision (entry (Some new_file_path) True True)
                                        (add_moved (st\<lparr>r_fs := fs'\<rparr>))))
                         else Some (log_decision (entry (Some new_file_path) True False)
                                     (add_moved (st\<lparr>r_fs := fs'\<rparr>)))))))"

text \<open>The loop over the files of one group.\<close>

fun move_files ::
  "world \<Rightarrow> bool \<Rightarrow> string \<Rightarrow> path \<Rightarrow> (path \<times> string) list \<Rightarrow> run_state
     \<Rightarrow> run_state option" where
  "move_files w dry_run category category_path [] st = Some st"
| "move_files w dry_run category category_path ((source_path, new_name) # files) st =
     (case organize_one w dry_run category category_path source_path new_name st of
        None \<Rightarrow> None
      | Some st1 \<Rightarrow> move_files w dry_run category category_path files st1)"

text \<open>
  The loop over \<^verbatim>\<open>merged_categories.items()\<close>. The creation of the folder of a group is
  outside the \<^verbatim>\<open>try\<close> block: when it raises, the exception leaves the function.
\<close>

fun organize_groups ::
  "world \<Rightarrow> bool \<Rightarrow> path \<Rightarrow> (string \<times> (path \<times> string) list) list \<Rightarrow> run_state
     \<Rightarrow> (error + run_state) option" where
  "organize_groups w dry_run target_path [] st = Some (Inr st)"
| "organize_groups w dry_run target_path ((category, files) # groups) st =
     (let category_path = joinpath target_path category
      in case (if dry_run then Inr (r_fs st)
               else mkdir (w_mkdir_refused w) (r_fs st) category_path) of
           Inl e \<Rightarrow> Some (Inl e)
         | Inr fs1 \<Rightarrow>
             (case move_files w dry_run category category_path files (st\<lparr>r_fs := fs1\<rparr>) of
                None \<Rightarrow> None
              | Some st2 \<Rightarrow> organize_groups w dry_run target_path groups st2))"

subsection \<open>The function\<close>

text \<open>
  \<^verbatim>\<open>organize_files\<close>. \<open>source_path\<close> and \<open>target_path\<close> are the resolved directories. The
  result is \<open>None\<close> when the run does not terminate, \<open>Inl e\<close> when the exception \<open>e\<close>
  leaves the function, and the final state otherwise; the program returns its
  \<open>r_stats\<close>. In a real run the target directory is created first, outside any
  \<^verbatim>\<open>try\<close> block.
\<close>

definition organize_files :: "world \<Rightarrow> path \<Rightarrow> path \<Rightarrow> bool \<Rightarrow> (error + run_state) option" where
  "organize_files w source_path target_path dry_run =
     (case (if dry_run then Inr (w_fs w)
            else mkdir (w_mkdir_refused w) (w_fs w) target_path) of
        Inl e \<Rightarrow> Some (Inl e)
      | Inr fs0 \<Rightarrow>
          (case collect w fs0 (w_rglob w source_path) ([], 0) of
             Inl e \<Rightarrow> Some (Inl e)
           | Inr (all_file_data, n) \<Rightarrow>
               (case merge_categories (w_namer w) all_file_data of
                  Inl e \<Rightarrow> Some (Inl e)
                | Inr merged_categories \<Rightarrow>
                    organize_groups w dry_run target_path merged_categories
                      \<lparr>r_stats = \<lparr>st_processed = n, st_moved = 0, st_errors = 0\<rparr>,
                       r_fs = fs0, r_trace = []\<rparr>)))"

section \<open>Notions used to state the properties\<close>

text \<open>Two keyword sets are similar when the quotient is computed and exceeds the threshold.\<close>

definition is_similar :: "string set \<Rightarrow> string set \<Rightarrow> bool" where
  "is_similar a b = (case similarity a b of Inl _ \<Rightarrow> False | Inr s \<Rightarrow> 3 / 10 < s)"

text \<open>The categories that join the seed \<open>cat1\<close>, in the order of the dictionary.\<close>

definition neighbours :: "string \<Rightarrow> string set \<Rightarrow> string set \<Rightarrow> profile \<Rightarrow> string list" where
  "neighbours cat1 kw1 P items =
     map fst (filter (\<lambda>(c, k). c \<noteq> cat1 \<and> c \<notin> P \<and> is_similar kw1 k) items)"

text \<open>The pair stored for a record in a merged group, and the record's raw category.\<close>

definition file_of :: "file_record \<Rightarrow> path \<times> string" where
  "file_of r = (fst r, fst (snd (snd r)))"

definition cat_of :: "file_record \<Rightarrow> string" where
  "cat_of r = fst (snd r)"

text \<open>All member lists of a dictionary of groups, one after the other.\<close>

definition all_files :: "(string \<times> (path \<times> string) list) list \<Rightarrow> (path \<times> string) list" where
  "all_files d = concat (map snd d)"

text \<open>What a run of the merging loop says about the clusters: the fault, or the clusters in order.\<close>

definition grouping :: "error + merge_state \<Rightarrow> error + string list list" where
  "grouping r = map_sum id (\<lambda>s. map snd (clusters s)) r"

text \<open>The file \<open>f\<close> is a member of the group keyed \<open>n\<close> in the dictionary \<open>d\<close>.\<close>

definition in_group ::
  "(string \<times> (path \<times> string) list) list \<Rightarrow> string \<Rightarrow> path \<times> string \<Rightarrow> bool" where
  "in_group d n f = (\<exists>files. (n, files) \<in> set d \<and> f \<in> set files)"

text \<open>The files whose raw category is in the cluster \<open>cs\<close>.\<close>

definition cluster_files :: "file_record list \<Rightarrow> string list \<Rightarrow> (path \<times> string) set" where
  "cluster_files fd cs = {f. \<exists>r \<in> set fd. cat_of r \<in> set cs \<and> file_of r = f}"

text \<open>The \<open>k\<close>-th candidate of the loop that avoids existing names: \<^verbatim>\<open>stem_k.ext\<close>.\<close>

definition candidate :: "path \<Rightarrow> string \<Rightarrow> nat \<Rightarrow> path" where
  "candidate category_path new_name k =
     joinpath category_path
       (fst (splitext new_name) @ ''_'' @ str_nat k @ snd (splitext new_name))"

section \<open>Notions used to state the properties of a run\<close>

text \<open>The path \<open>p\<close> exists; the path \<open>p\<close> is a regular file.\<close>

definition present :: "fsys \<Rightarrow> path \<Rightarrow> bool" where
  "present fs p = (lookup fs p \<noteq> None)"

definition file_at :: "fsys \<Rightarrow> path \<Rightarrow> bool" where
  "file_at fs p = (case lookup fs p of None \<Rightarrow> False | Some q \<Rightarrow> q \<in> fs_files fs)"

text \<open>The name \<^verbatim>\<open>stem_k.ext\<close> that the loop tries for the suggested name \<open>nn\<close>.\<close>

definition suffixed :: "string \<Rightarrow> nat \<Rightarrow> string" where
  "suffixed nn k = fst (splitext nn) @ ''_'' @ str_nat k @ snd (splitext nn)"

text \<open>
  The file system when the traversal starts: in a real run the target directory has
  been created.
\<close>

definition start_fs :: "world \<Rightarrow> path \<Rightarrow> bool \<Rightarrow> error + fsys" where
  "start_fs w target_path dry_run =
     (if dry_run then Inr (w_fs w) else mkdir (w_mkdir_refused w) (w_fs w) target_path)"

text \<open>
  The files discovered: the paths of the traversal that are regular files and are not
  excluded. The record that the analysis loop builds for a file, and the list
  \<^verbatim>\<open>all_file_data\<close>.
\<close>

definition discovered :: "world \<Rightarrow> fsys \<Rightarrow> path \<Rightarrow> path list" where
  "discovered w fs source_path =
     filter (\<lambda>p. file_at fs p \<and> \<not> excluded p) (w_rglob w source_path)"

definition analyze_file :: "world \<Rightarrow> path \<Rightarrow> file_record" where
  "analyze_file w file_path =
     (case analyze_filename (w_llm w file_path) (path_name file_path) of
        (category, new_name, kws) \<Rightarrow> (file_path, category, new_name, kws))"

definition file_data_of :: "world \<Rightarrow> fsys \<Rightarrow> path \<Rightarrow> file_record list" where
  "file_data_of w fs source_path = map (analyze_file w) (discovered w fs source_path)"

text \<open>The state with which the loop over the groups starts.\<close>

definition initial_state :: "fsys \<Rightarrow> nat \<Rightarrow> run_state" where
  "initial_state fs n =
     \<lparr>r_stats = \<lparr>st_processed = n, st_moved = 0, st_errors = 0\<rparr>, r_fs = fs, r_trace = []\<rparr>"

text \<open>What \<^verbatim>\<open>organize_files\<close> returns: the statistics.\<close>

definition run_stats :: "(error + run_state) option \<Rightarrow> (error + stats) option" where
  "run_stats r = map_option (map_sum id r_stats) r"

text \<open>The destination that a resolution yields, if it yields one.\<close>

definition the_dest :: "error + path \<Rightarrow> path option" where
  "the_dest r = (case r of Inl e \<Rightarrow> None | Inr d \<Rightarrow> Some d)"

text \<open>
  The iteration for one file, given the outcome \<open>dest\<close> of the resolution of its
  destination: what is recorded for it, the file system afterwards, and the state
  afterwards.
\<close>

definition entry_for ::
  "world \<Rightarrow> bool \<Rightarrow> string \<Rightarrow> path \<Rightarrow> string \<Rightarrow> fsys \<Rightarrow> path option \<Rightarrow> decision" where
  "entry_for w dry_run category src name fs dest =
     \<lparr>d_category = category, d_source = src, d_name = name, d_seen = fs, d_dest = dest,
      d_moved = (case dest of
                   None \<Rightarrow> False
                 | Some d \<Rightarrow> \<not> dry_run \<and> fst (shutil_move (w_mover w) fs src d)),
      d_raised = (case dest of
                    None \<Rightarrow> True
                  | Some d \<Rightarrow>
                      (\<not> dry_run \<and> \<not> fst (shutil_move (w_mover w) fs src d))
                      \<or> w_print_raises w dry_run (path_name src) category (path_name d))\<rparr>"

definition fs_after :: "world \<Rightarrow> bool \<Rightarrow> path \<Rightarrow> fsys \<Rightarrow> path option \<Rightarrow> fsys" where
  "fs_after w dry_run src fs dest =
     (case dest of
        None \<Rightarrow> fs
      | Some d \<Rightarrow> if dry_run then fs else snd (shutil_move (w_mover w) fs src d))"

definition record_entry :: "decision \<Rightarrow> fsys \<Rightarrow> run_state \<Rightarrow> run_state" where
  "record_entry e fs' st =
     \<lparr>r_stats = \<lparr>st_processed = st_processed (r_stats st),
                 st_moved = st_moved (r_stats st) + (if d_moved e then 1 else 0),
                 st_errors = st_errors (r_stats st) + (if d_raised e then 1 else 0)\<rparr>,
      r_fs = fs',
      r_trace = r_trace st @ [e]\<rparr>"

text \<open>
  The two nested loops of \<^verbatim>\<open>organize_files\<close> as one sequence of steps: the creation
  of the folder of a group, then one step for each of its files.
\<close>

datatype step = Mkdir string | File string path string

fun steps_of :: "(string \<times> (path \<times> string) list) list \<Rightarrow> step list" where
  "steps_of [] = []"
| "steps_of ((category, files) # groups) =
     Mkdir category # map (\<lambda>(src, name). File category src name) files @ steps_of groups"

fun run_steps ::
  "world \<Rightarrow> bool \<Rightarrow> path \<Rightarrow> step list \<Rightarrow> run_state \<Rightarrow> (error + run_state) option" where
  "run_steps w dry_run target [] st = Some (Inr st)"
| "run_steps w dry_run target (Mkdir category # ss) st =
     (if dry_run then run_steps w dry_run target ss st
      else (case mkdir (w_mkdir_refused w) (r_fs st) (joinpath target category) of
              Inl e \<Rightarrow> Some (Inl e)
            | Inr fs1 \<Rightarrow> run_steps w dry_run target ss (st\<lparr>r_fs := fs1\<rparr>)))"
| "run_steps w dry_run target (File category src name # ss) st =
     (case organize_one w dry_run category (joinpath target category) src name st of
        None \<Rightarrow> None
      | Some st1 \<Rightarrow> run_steps w dry_run target ss st1)"


text \<open>The files of a sequence of steps with their group and suggested name.\<close>

fun step_files :: "step list \<Rightarrow> (string \<times> path \<times> string) list" where
  "step_files [] = []"
| "step_files (Mkdir _ # ss) = step_files ss"
| "step_files (File category src name # ss) = (category, src, name) # step_files ss"

text \<open>
  The work that the groups ask for: every member of every group with the name of its
  group, in the order of the two loops.
\<close>

definition plan ::
  "(string \<times> (path \<times> string) list) list \<Rightarrow> (string \<times> path \<times> string) list" where
  "plan groups = concat (map (\<lambda>(category, files). map (\<lambda>(src, name). (category, src, name)) files) groups)"

text \<open>What an entry of the trace says was asked for.\<close>

definition asked :: "decision \<Rightarrow> string \<times> path \<times> string" where
  "asked e = (d_category e, d_source e, d_name e)"

text \<open>
  An entry records what the iteration did: the destination is the one that the
  resolution yields in the folder of the group, on the file system as it was then; the
  file is marked as moved when \<^verbatim>\<open>shutil.move\<close> was called and returned normally; the
  iteration is marked as raising when the existence test raised, when the move
  raised, or when the report raised.
\<close>

definition explains :: "world \<Rightarrow> bool \<Rightarrow> path \<Rightarrow> decision \<Rightarrow> bool" where
  "explains w dry_run target e =
     ((\<exists>r. resolve_destination (w_stat_raises w) (d_seen e)
               (joinpath target (d_category e)) (d_name e) = Some r
            \<and> d_dest e = the_dest r)
      \<and> e = entry_for w dry_run (d_category e) (d_source e) (d_name e) (d_seen e) (d_dest e))"



text \<open>
  The destination \<open>d\<close> follows the naming scheme for the name \<open>nn\<close> in the folder \<open>cp\<close>
  on the file system \<open>fs\<close>: it does not exist, and it is the plain path
  \<^verbatim>\<open>folder/name\<close>, or that path exists and \<open>d\<close> is \<^verbatim>\<open>folder/stem_k.ext\<close> for the smallest
  \<open>k \<ge> 1\<close> whose path does not exist.
\<close>

definition least_free :: "fsys \<Rightarrow> path \<Rightarrow> string \<Rightarrow> path \<Rightarrow> bool" where
  "least_free fs cp nn d =
     (\<not> present fs d
      \<and> (d = joinpath cp nn
          \<or> (present fs (joinpath cp nn)
              \<and> (\<exists>k\<ge>1. d = candidate cp nn k
                    \<and> (\<forall>j. 1 \<le> j \<and> j < k \<longrightarrow> present fs (candidate cp nn j))))))"


text \<open>
  The decisions of a run as the claim words them, pairs of a category and a resolved
  destination, and the destinations alone.
\<close>

definition decisions :: "(error + run_state) option \<Rightarrow> (string \<times> path option) list option" where
  "decisions r =
     (case r of
        Some (Inr st) \<Rightarrow> Some (map (\<lambda>d. (d_category d, d_dest d)) (r_trace st))
      | _ \<Rightarrow> None)"

definition destinations :: "(error + run_state) option \<Rightarrow> path option list option" where
  "destinations r = map_option (map snd) (decisions r)"

text \<open>The destinations that a trace records, in order.\<close>

definition dests :: "decision list \<Rightarrow> path list" where
  "dests tr = concat (map (\<lambda>e. case d_dest e of None \<Rightarrow> [] | Some d \<Rightarrow> [d]) tr)"



text \<open>The components that joining the name \<open>c\<close> adds to a path.\<close>

definition seg :: "string \<Rightarrow> string list" where
  "seg c = (if c = [] \<or> c = ''.'' then [] else [c])"


text \<open>
  The objects on the way from \<open>cur\<close> along the names \<open>cs\<close>; the directories that a real
  run creates or finds for the target directory and the folders of the categories
  \<open>cats\<close>.
\<close>

fun chain :: "node \<Rightarrow> string list \<Rightarrow> node list" where
  "chain cur [] = []"
| "chain cur (c # cs) = (cur @ [c]) # chain (cur @ [c]) cs"



section \<open>The grouper as the specification words it\<close>



text \<open>The elements of a list in the order of their first occurrence.\<close>

fun first_seen :: "'a list \<Rightarrow> 'a list" where
  "first_seen [] = []"
| "first_seen (x # xs) = x # removeAll x (first_seen xs)"

section \<open>Concrete inputs\<close>

text \<open>
  Four files in three raw categories. \<open>Modelling\<close> and \<open>GameDev\<close> share two of four
  keywords; \<open>WebDev\<close> shares none with them.
\<close>

definition scenario_files :: "file_record list" where
  "scenario_files =
     [(''/in/hero.blend'', ''Modelling'', ''hero.blend'', [''3d'', ''render'', ''character'']),
      (''/in/level.blend'', ''GameDev'', ''level.blend'', [''3d'', ''render'', ''game'']),
      (''/in/page.fig'', ''WebDev'', ''page.fig'', [''ui'', ''design'', ''web'']),
      (''/in/boss.blend'', ''Modelling'', ''boss.blend'', [''3d''])]"

definition scenario_state :: merge_state where
  "scenario_state =
     \<lparr>merged =
        [(''Modelling'',
          [(''/in/hero.blend'', ''hero.blend''), (''/in/boss.blend'', ''boss.blend''),
           (''/in/level.blend'', ''level.blend'')]),
         (''WebDev'', [(''/in/page.fig'', ''page.fig'')])],
      processed = {''Modelling'', ''GameDev'', ''WebDev''},
      clusters = [(''Modelling'', [''Modelling'', ''GameDev'']), (''WebDev'', [''WebDev''])]\<rparr>"

text \<open>The same categories with the same keyword profiles, from other files.\<close>

definition scenario_files_renamed :: "file_record list" where
  "scenario_files_renamed =
     [(''/work/a.blend'', ''Modelling'', ''a.blend'', [''character'', ''3d'']),
      (''/work/b.blend'', ''Modelling'', ''b.blend'', [''render'']),
      (''/work/c.blend'', ''GameDev'', ''c.blend'', [''game'', ''render'', ''3d'']),
      (''/work/d.fig'', ''WebDev'', ''d.fig'', [''web'', ''design'', ''ui''])]"

text \<open>
  Three raw categories in two clusters; the naming request answers the name of the
  second cluster for the first one.
\<close>

definition collide_files :: "file_record list" where
  "collide_files =
     [(''/in/a.png'', ''Photos'', ''a.png'', [''img'']),
      (''/in/b.jpg'', ''Pictures'', ''b.jpg'', [''img'']),
      (''/in/c.gif'', ''Images'', ''c.gif'', [''anim''])]"

definition collide_namer :: "string list \<Rightarrow> response" where
  "collide_namer cats = (if cats = [''Photos'', ''Pictures''] then Content ''Images'' else Raised)"

definition collide_state :: merge_state where
  "collide_state =
     \<lparr>merged =
        [(''Images'', [(''/in/a.png'', ''a.png''), (''/in/b.jpg'', ''b.jpg''),
                       (''/in/c.gif'', ''c.gif'')])],
      processed = {''Photos'', ''Pictures'', ''Images''},
      clusters = [(''Images'', [''Photos'', ''Pictures'']), (''Images'', [''Images''])]\<rparr>"

text \<open>A terminal on which no report raises.\<close>

definition quiet :: "bool \<Rightarrow> string \<Rightarrow> string \<Rightarrow> string \<Rightarrow> bool" where
  "quiet dry_run src category dst = False"

text \<open>One file, whose classification request raises. The target directory does not exist.\<close>

definition misc_world :: world where
  "misc_world =
     \<lparr>w_fs = \<lparr>fs_files = {[''in'', ''a.txt'']}, fs_dirs = {[], [''in'']}\<rparr>,
      w_rglob = (\<lambda>_. [''/in/a.txt'']),
      w_llm = (\<lambda>_. Raised),
      w_namer = (\<lambda>_. Raised),
      w_mover = (\<lambda>_ _. Completes),
      w_stat_raises = {},
      w_mkdir_refused = {},
      w_print_raises = quiet\<rparr>"

text \<open>
  Two files: the classification request of the first raises, the answer for the second
  has a category and a name but no \<^verbatim>\<open>KEYWORDS\<close> line.
\<close>

definition abort_world :: world where
  "abort_world =
     \<lparr>w_fs = \<lparr>fs_files = {[''in'', ''a.txt''], [''in'', ''b.txt'']}, fs_dirs = {[], [''in'']}\<rparr>,
      w_rglob = (\<lambda>_. [''/in/a.txt'', ''/in/b.txt'']),
      w_llm = (\<lambda>p. if p = ''/in/a.txt'' then Raised
                     else Content (''CATEGORY: Docs'' @ [newline] @ ''NEWNAME: notes'')),
      w_namer = (\<lambda>_. Raised),
      w_mover = (\<lambda>_ _. Completes),
      w_stat_raises = {},
      w_mkdir_refused = {},
      w_print_raises = quiet\<rparr>"

text \<open>
  Four files whose classification requests raise, so that all of them are in the group
  \<open>Misc\<close> under their own names. The move of \<^verbatim>\<open>b.txt\<close> raises, the existence test for
  the destination of \<^verbatim>\<open>c.txt\<close> raises, and the report for \<^verbatim>\<open>d.txt\<close> raises.
\<close>

definition fault_world :: world where
  "fault_world =
     \<lparr>w_fs = \<lparr>fs_files = {[''in'', ''a.txt''], [''in'', ''b.txt''], [''in'', ''c.txt''],
                            [''in'', ''d.txt'']},
               fs_dirs = {[], [''in'']}\<rparr>,
      w_rglob = (\<lambda>_. [''/in/a.txt'', ''/in/b.txt'', ''/in/c.txt'', ''/in/d.txt'']),
      w_llm = (\<lambda>_. Raised),
      w_namer = (\<lambda>_. Raised),
      w_mover = (\<lambda>src dst. if src = ''/in/b.txt'' then Raises else Completes),
      w_stat_raises = {''/out/Misc/c.txt''},
      w_mkdir_refused = {},
      w_print_raises = (\<lambda>dry_run src category dst. src = ''d.txt'')\<rparr>"

text \<open>
  The real run in that world: the file system after the creation of the target
  directory, after the creation of the folder of the group, and after the first move;
  and the final state.
\<close>

definition fault_fs_target :: fsys where
  "fault_fs_target =
     \<lparr>fs_files = {[''in'', ''a.txt''], [''in'', ''b.txt''], [''in'', ''c.txt''],
                   [''in'', ''d.txt'']},
      fs_dirs = {[], [''in''], [''out'']}\<rparr>"

definition fault_fs_folder :: fsys where
  "fault_fs_folder =
     \<lparr>fs_files = {[''in'', ''a.txt''], [''in'', ''b.txt''], [''in'', ''c.txt''],
                   [''in'', ''d.txt'']},
      fs_dirs = {[], [''in''], [''out''], [''out'', ''Misc'']}\<rparr>"

definition fault_fs_moved :: fsys where
  "fault_fs_moved =
     \<lparr>fs_files = {[''out'', ''Misc'', ''a.txt''], [''in'', ''b.txt''], [''in'', ''c.txt''],
                   [''in'', ''d.txt'']},
      fs_dirs = {[], [''in''], [''out''], [''out'', ''Misc'']}\<rparr>"

definition fault_state :: run_state where
  "fault_state =
     \<lparr>r_stats = \<lparr>st_processed = 4, st_moved = 2, st_errors = 3\<rparr>,
      r_fs = \<lparr>fs_files = {[''out'', ''Misc'', ''a.txt''], [''out'', ''Misc'', ''d.txt''],
                            [''in'', ''b.txt''], [''in'', ''c.txt'']},
               fs_dirs = {[], [''in''], [''out''], [''out'', ''Misc'']}\<rparr>,
      r_trace =
        [\<lparr>d_category = ''Misc'', d_source = ''/in/a.txt'', d_name = ''a.txt'',
           d_seen = fault_fs_folder, d_dest = Some ''/out/Misc/a.txt'',
           d_moved = True, d_raised = False\<rparr>,
         \<lparr>d_category = ''Misc'', d_source = ''/in/b.txt'', d_name = ''b.txt'',
           d_seen = fault_fs_moved, d_dest = Some ''/out/Misc/b.txt'',
           d_moved = False, d_raised = True\<rparr>,
         \<lparr>d_category = ''Misc'', d_source = ''/in/c.txt'', d_name = ''c.txt'',
           d_seen = fault_fs_moved, d_dest = None,
           d_moved = False, d_raised = True\<rparr>,
         \<lparr>d_category = ''Misc'', d_source = ''/in/d.txt'', d_name = ''d.txt'',
           d_seen = fault_fs_moved, d_dest = Some ''/out/Misc/d.txt'',
           d_moved = True, d_raised = True\<rparr>]\<rparr>"


text \<open>
  Two files \<^verbatim>\<open>draft.txt\<close> in two directories; the classification answers the category
  \<open>Documents\<close> and the name \<open>draft\<close> for both. The target directory does not exist yet.
\<close>

definition draft_answer :: string where
  "draft_answer =
     ''CATEGORY: Documents'' @ [newline] @ ''KEYWORDS: text, draft'' @ [newline] @ ''NEWNAME: draft''"

definition draft_world :: world where
  "draft_world =
     \<lparr>w_fs = \<lparr>fs_files = {[''in'', ''x'', ''draft.txt''], [''in'', ''y'', ''draft.txt'']},
               fs_dirs = {[], [''in''], [''in'', ''x''], [''in'', ''y'']}\<rparr>,
      w_rglob = (\<lambda>_. [''/in/x'', ''/in/x/draft.txt'', ''/in/y'', ''/in/y/draft.txt'']),
      w_llm = (\<lambda>_. Content draft_answer),
      w_namer = (\<lambda>_. Raised),
      w_mover = (\<lambda>_ _. Completes),
      w_stat_raises = {},
      w_mkdir_refused = {},
      w_print_raises = quiet\<rparr>"





text \<open>
  The world of the single file, with a regular file at the place of the folder of its
  group.
\<close>

definition blocked_world :: world where
  "blocked_world =
     misc_world\<lparr>w_fs := \<lparr>fs_files = {[''in'', ''a.txt''], [''out'', ''Misc'']},
                          fs_dirs = {[], [''in''], [''out'']}\<rparr>\<rparr>"

text \<open>One file without an extension, for which the classification suggests the name \<^verbatim>\<open>..\<close>.\<close>

definition dotdot_world :: world where
  "dotdot_world =
     \<lparr>w_fs = \<lparr>fs_files = {[''in'', ''draft'']}, fs_dirs = {[], [''in'']}\<rparr>,
      w_rglob = (\<lambda>_. [''/in/draft'']),
      w_llm = (\<lambda>_. Content (''CATEGORY: Documents'' @ [newline] @ ''KEYWORDS: text''
                                 @ [newline] @ ''NEWNAME: ..'')),
      w_namer = (\<lambda>_. Raised),
      w_mover = (\<lambda>_ _. Completes),
      w_stat_raises = {},
      w_mkdir_refused = {},
      w_print_raises = quiet\<rparr>"

text \<open>
  The world of the two files \<^verbatim>\<open>draft.txt\<close>, where the move of the first one raises:
  without a trace, or after a copy has been left at the destination.
\<close>

definition draft_world_failing :: "move_result \<Rightarrow> world" where
  "draft_world_failing how =
     draft_world\<lparr>w_mover := (\<lambda>src dst. if src = ''/in/x/draft.txt'' then how else Completes)\<rparr>"

section \<open>The keyword profile and the clusters\<close>

lemma kw_update_keys: "map fst (kw_update m c ks) = (if c \<in> fst ` set m then map fst m else map fst m @ [c])"
  by (induction m c ks rule: kw_update.induct) auto

lemma collect_keywords_keys:
  "set (map fst (collect_keywords m fd)) = set (map fst m) \<union> cat_of ` set fd"
  by (induction m fd rule: collect_keywords.induct) (auto simp: kw_update_keys cat_of_def)

lemma collect_keywords_distinct:
  "distinct (map fst m) \<Longrightarrow> distinct (map fst (collect_keywords m fd))"
  by (induction m fd rule: collect_keywords.induct) (auto simp: kw_update_keys)

lemma category_keywords_keys: "set (map fst (category_keywords fd)) = cat_of ` set fd"
  unfolding category_keywords_def using collect_keywords_keys [of "[]" fd] by simp

lemma category_keywords_distinct: "distinct (map fst (category_keywords fd))"
  by (simp add: category_keywords_def collect_keywords_distinct)

lemma similar_loop_Inr:
  "similar_loop cat1 kw1 P items acc = Inr r \<Longrightarrow> r = acc @ neighbours cat1 kw1 P items"
proof (induction items arbitrary: acc)
  case Nil
  then show ?case by (simp add: neighbours_def)
next
  case (Cons a items)
  obtain c k where a: "a = (c, k)" by (cases a)
  show ?case
  proof (cases "c \<noteq> cat1 \<and> c \<notin> P")
    case False
    with Cons a show ?thesis by (auto simp: neighbours_def)
  next
    case True
    show ?thesis
    proof (cases "similarity kw1 k")
      case (Inl e)
      with Cons.prems a True show ?thesis by simp
    next
      case (Inr s)
      with Cons.prems a True
      have "similar_loop cat1 kw1 P items (if 3 / 10 < s then acc @ [c] else acc) = Inr r"
        by simp
      from Cons.IH [OF this] a True Inr show ?thesis
        by (simp add: neighbours_def is_similar_def)
    qed
  qed
qed

lemma similar_loop_Inl:
  "similar_loop cat1 kw1 P items acc = Inl e \<Longrightarrow> e = ZeroDivisionError"
  by (induction items arbitrary: acc)
     (auto simp: similarity_def split: if_splits sum.splits)

lemma neighbours_props:
  "set (neighbours cat1 kw1 P items) \<subseteq> set (map fst items) - insert cat1 P"
  "distinct (map fst items) \<Longrightarrow> distinct (neighbours cat1 kw1 P items)"
  by (auto simp: neighbours_def distinct_map_filter)

lemma get_merged_category_name_nonempty:
  "cats \<noteq> [] \<Longrightarrow> \<exists>n. get_merged_category_name namer cats = Inr n"
  by (cases cats) (auto simp: get_merged_category_name_def split: response.splits)

lemma all_files_dict_append: "mset (all_files (dict_append d k v)) = mset (all_files d) + {#v#}"
  by (induction d k v rule: dict_append.induct) (auto simp: all_files_def)

lemma all_files_append_files:
  "mset (all_files (append_files n c fd d))
     = mset (all_files d) + mset (map file_of (filter (\<lambda>r. cat_of r = c) fd))"
  by (induction n c fd d rule: append_files.induct)
     (auto simp: all_files_dict_append file_of_def cat_of_def)

lemma absorb_processed: "processed (absorb n fd cs st) = processed st \<union> set cs"
  by (induction n fd cs st rule: absorb.induct) auto

lemma absorb_clusters: "clusters (absorb n fd cs st) = clusters st"
  by (induction n fd cs st rule: absorb.induct) auto

lemma filter_mset_split:
  "c \<notin> S \<Longrightarrow> mset (filter (\<lambda>r. f r = c) xs) + mset (filter (\<lambda>r. f r \<in> S) xs)
     = mset (filter (\<lambda>r. f r \<in> insert c S) xs)"
  by (induction xs) auto

lemma absorb_files:
  "distinct cs \<Longrightarrow>
   mset (all_files (merged (absorb n fd cs st)))
     = mset (all_files (merged st)) + mset (map file_of (filter (\<lambda>r. cat_of r \<in> set cs) fd))"
proof (induction n fd cs st rule: absorb.induct)
  case (1 n fd st)
  then show ?case by simp
next
  case (2 n fd c cs st)
  have "mset (map file_of (filter (\<lambda>r. cat_of r = c) fd))
          + mset (map file_of (filter (\<lambda>r. cat_of r \<in> set cs) fd))
        = mset (map file_of (filter (\<lambda>r. cat_of r \<in> insert c (set cs)) fd))"
  proof -
    from 2(2) have "c \<notin> set cs" by simp
    from filter_mset_split [OF this, of cat_of fd]
    have "image_mset file_of (mset (filter (\<lambda>r. cat_of r = c) fd) + mset (filter (\<lambda>r. cat_of r \<in> set cs) fd))
            = image_mset file_of (mset (filter (\<lambda>r. cat_of r \<in> insert c (set cs)) fd))"
      by simp
    then show ?thesis by simp
  qed
  with 2 show ?case by (simp add: all_files_append_files add.assoc)
qed

lemma filter_mset_disjoint:
  "A \<inter> B = {} \<Longrightarrow>
   mset (filter (\<lambda>r. f r \<in> A) xs) + mset (filter (\<lambda>r. f r \<in> B) xs)
     = mset (filter (\<lambda>r. f r \<in> A \<union> B) xs)"
  by (induction xs) auto

lemma merge_loop_unfold_seed:
  assumes "merge_loop namer fd all ((cat1, kw1) # items) st = Inr st'"
    and "cat1 \<notin> processed st"
  obtains merged_name where
    "get_merged_category_name namer (cat1 # neighbours cat1 kw1 (processed st) all)
       = Inr merged_name"
    "merge_loop namer fd all items
       (absorb merged_name fd (cat1 # neighbours cat1 kw1 (processed st) all)
          (st\<lparr>clusters := clusters st
                 @ [(merged_name, cat1 # neighbours cat1 kw1 (processed st) all)]\<rparr>)) = Inr st'"
proof -
  from assms obtain similar where s: "similar_loop cat1 kw1 (processed st) all [cat1] = Inr similar"
    by (auto split: sum.splits)
  from assms s obtain merged_name where n: "get_merged_category_name namer similar = Inr merged_name"
    by (auto split: sum.splits)
  from similar_loop_Inr [OF s] have "similar = cat1 # neighbours cat1 kw1 (processed st) all"
    by simp
  with assms s n that show thesis by (auto simp del: absorb.simps)
qed

lemma seed_cluster_distinct:
  assumes "distinct (map fst all)"
  shows "distinct (cat1 # neighbours cat1 kw1 P all)"
    and "set (cat1 # neighbours cat1 kw1 P all) \<inter> P \<subseteq> {cat1}"
  using neighbours_props [where ?cat1.0 = cat1 and ?kw1.0 = kw1 and P = P and items = all] assms by auto

lemma merge_loop_invariant:
  assumes "merge_loop namer fd all items st = Inr st'"
    and "distinct (map fst all)"
    and "processed st = set (concat (map snd (clusters st)))"
    and "distinct (concat (map snd (clusters st)))"
    and "mset (all_files (merged st))
           = mset (map file_of (filter (\<lambda>r. cat_of r \<in> processed st) fd))"
  shows "processed st' = set (concat (map snd (clusters st')))
       \<and> distinct (concat (map snd (clusters st')))
       \<and> mset (all_files (merged st'))
           = mset (map file_of (filter (\<lambda>r. cat_of r \<in> processed st') fd))
       \<and> processed st \<union> set (map fst items) \<subseteq> processed st'
       \<and> processed st' \<subseteq> processed st \<union> set (map fst items) \<union> set (map fst all)"
  using assms
proof (induction items arbitrary: st)
  case Nil
  then show ?case by simp
next
  case (Cons a items)
  obtain cat1 kw1 where a: "a = (cat1, kw1)" by (cases a)
  show ?case
  proof (cases "cat1 \<in> processed st")
    case True
    with Cons.prems a have "merge_loop namer fd all items st = Inr st'" by simp
    from Cons.IH [OF this Cons.prems(2-5)] True a show ?thesis by auto
  next
    case False
    define cl where "cl = cat1 # neighbours cat1 kw1 (processed st) all"
    have full: "merge_loop namer fd all ((cat1, kw1) # items) st = Inr st'"
      using Cons.prems(1) unfolding a .
    obtain merged_name where
      run: "merge_loop namer fd all items
              (absorb merged_name fd cl (st\<lparr>clusters := clusters st @ [(merged_name, cl)]\<rparr>))
            = Inr st'"
      using merge_loop_unfold_seed [OF full False] unfolding cl_def by blast
    define st2 where
      "st2 = absorb merged_name fd cl (st\<lparr>clusters := clusters st @ [(merged_name, cl)]\<rparr>)"
    have dcl: "distinct cl" and disj: "set cl \<inter> processed st = {}"
      using seed_cluster_distinct [OF Cons.prems(2), of cat1 kw1 "processed st"] False
      unfolding cl_def by auto
    have sub: "set cl \<subseteq> insert cat1 (set (map fst all))"
      using neighbours_props(1) [where ?cat1.0 = cat1 and ?kw1.0 = kw1 and P = "processed st" and items = all] unfolding cl_def by auto
    have p2: "processed st2 = processed st \<union> set cl"
      unfolding st2_def by (simp add: absorb_processed)
    have c2: "clusters st2 = clusters st @ [(merged_name, cl)]"
      unfolding st2_def by (simp add: absorb_clusters)
    have i1: "processed st2 = set (concat (map snd (clusters st2)))"
      using p2 c2 Cons.prems(3) by simp
    have i2: "distinct (concat (map snd (clusters st2)))"
      using c2 Cons.prems(3,4) dcl disj by auto
    have "mset (all_files (merged st2))
            = mset (all_files (merged st))
              + mset (map file_of (filter (\<lambda>r. cat_of r \<in> set cl) fd))"
      unfolding st2_def using absorb_files [OF dcl] by simp
    also have "\<dots> = image_mset file_of
                       (mset (filter (\<lambda>r. cat_of r \<in> processed st) fd)
                        + mset (filter (\<lambda>r. cat_of r \<in> set cl) fd))"
      using Cons.prems(5) by simp
    also have "\<dots> = image_mset file_of
                       (mset (filter (\<lambda>r. cat_of r \<in> processed st \<union> set cl) fd))"
      using filter_mset_disjoint [of "processed st" "set cl" cat_of fd] disj
      by (simp add: Int_commute)
    finally have i3: "mset (all_files (merged st2))
            = mset (map file_of (filter (\<lambda>r. cat_of r \<in> processed st2) fd))"
      using p2 by simp
    from run have "merge_loop namer fd all items st2 = Inr st'" unfolding st2_def .
    from Cons.IH [OF this Cons.prems(2) i1 i2 i3]
    have ih1: "processed st' = set (concat (map snd (clusters st')))
       \<and> distinct (concat (map snd (clusters st')))
       \<and> mset (all_files (merged st'))
           = mset (map file_of (filter (\<lambda>r. cat_of r \<in> processed st') fd))"
      and ih2: "processed st2 \<union> set (map fst items) \<subseteq> processed st'"
      and ih3: "processed st' \<subseteq> processed st2 \<union> set (map fst items) \<union> set (map fst all)"
      by blast+
    have "cat1 \<in> set cl" by (simp add: cl_def)
    with ih2 p2 a have g1: "processed st \<union> set (map fst (a # items)) \<subseteq> processed st'"
      by auto
    from ih3 p2 sub a
    have g2: "processed st' \<subseteq> processed st \<union> set (map fst (a # items)) \<union> set (map fst all)"
      by auto
    from ih1 g1 g2 show ?thesis by blast
  qed
qed

lemma merge_run_invariant:
  assumes "merge_run namer fd = Inr st"
  shows "distinct (concat (map snd (clusters st)))"
    and "set (concat (map snd (clusters st))) = cat_of ` set fd"
    and "processed st = cat_of ` set fd"
    and "mset (all_files (merged st)) = mset (map file_of fd)"
proof -
  let ?st0 = "\<lparr>merged = [], processed = {}, clusters = []\<rparr>"
  from assms have run: "merge_loop namer fd (category_keywords fd) (category_keywords fd) ?st0 = Inr st"
    by (simp add: merge_run_def)
  have inv: "processed st = set (concat (map snd (clusters st)))
       \<and> distinct (concat (map snd (clusters st)))
       \<and> mset (all_files (merged st))
           = mset (map file_of (filter (\<lambda>r. cat_of r \<in> processed st) fd))
       \<and> processed ?st0 \<union> set (map fst (category_keywords fd)) \<subseteq> processed st
       \<and> processed st \<subseteq> processed ?st0 \<union> set (map fst (category_keywords fd))
            \<union> set (map fst (category_keywords fd))"
    by (rule merge_loop_invariant [OF run category_keywords_distinct])
       (simp_all add: all_files_def)
  then have p: "processed st = cat_of ` set fd"
    using category_keywords_keys [of fd] by auto
  show "distinct (concat (map snd (clusters st)))" using inv by simp
  show "set (concat (map snd (clusters st))) = cat_of ` set fd" using inv p by simp
  show "processed st = cat_of ` set fd" by (rule p)
  have "filter (\<lambda>r. cat_of r \<in> processed st) fd = fd" using p by simp
  with inv show "mset (all_files (merged st)) = mset (map file_of fd)" by simp
qed




lemma collect_keywords_order:
  "map fst (collect_keywords m fd)
     = map fst m @ filter (\<lambda>c. c \<notin> set (map fst m)) (first_seen (map cat_of fd))"
proof (induction m fd rule: collect_keywords.induct)
  case (1 m)
  then show ?case by simp
next
  case (2 m p category n kws file_data)
  have c: "cat_of (p, category, n, kws) = category" by (simp add: cat_of_def)
  show ?case
  proof (cases "category \<in> fst ` set m")
    case True
    then show ?thesis using 2 c
      by (simp add: kw_update_keys removeAll_filter_not_eq) (metis (mono_tags, lifting) filter_cong)
  next
    case False
    then show ?thesis using 2 c
      by (simp add: kw_update_keys removeAll_filter_not_eq eq_commute [of category])
  qed
qed

lemma category_keywords_first_seen:
  "map fst (category_keywords fd) = first_seen (map cat_of fd)"
  unfolding category_keywords_def using collect_keywords_order [of "[]" fd] by simp

lemma merge_loop_lockstep:
  assumes "processed st1 = processed st2"
    and "map snd (clusters st1) = map snd (clusters st2)"
  shows "map_sum id (\<lambda>s. (processed s, map snd (clusters s))) (merge_loop n1 fd1 all items st1)
       = map_sum id (\<lambda>s. (processed s, map snd (clusters s))) (merge_loop n2 fd2 all items st2)"
  using assms
proof (induction items arbitrary: st1 st2)
  case Nil
  then show ?case by simp
next
  case (Cons a items)
  obtain cat1 kw1 where a: "a = (cat1, kw1)" by (cases a)
  show ?case
  proof (cases "cat1 \<in> processed st1")
    case True
    with Cons a show ?thesis by simp
  next
    case False
    show ?thesis
    proof (cases "similar_loop cat1 kw1 (processed st1) all [cat1]")
      case (Inl e)
      with False Cons.prems a show ?thesis by simp
    next
      case (Inr cl)
      from similar_loop_Inr [OF Inr] have "cl \<noteq> []" by simp
      then obtain m1 m2 where
        m1: "get_merged_category_name n1 cl = Inr m1" and
        m2: "get_merged_category_name n2 cl = Inr m2"
        using get_merged_category_name_nonempty by metis
      let ?s1 = "absorb m1 fd1 cl (st1\<lparr>clusters := clusters st1 @ [(m1, cl)]\<rparr>)"
      let ?s2 = "absorb m2 fd2 cl (st2\<lparr>clusters := clusters st2 @ [(m2, cl)]\<rparr>)"
      have "processed ?s1 = processed ?s2" "map snd (clusters ?s1) = map snd (clusters ?s2)"
        using Cons.prems by (simp_all add: absorb_processed absorb_clusters)
      from Cons.IH [OF this] False Cons.prems(1) a Inr m1 m2 show ?thesis
        by (simp del: absorb.simps)
    qed
  qed
qed

lemma merge_loop_error:
  "merge_loop namer fd all items st = Inl e \<Longrightarrow> e = ZeroDivisionError"
proof (induction items arbitrary: st)
  case Nil
  then show ?case by simp
next
  case (Cons a items)
  obtain cat1 kw1 where a: "a = (cat1, kw1)" by (cases a)
  show ?case
  proof (cases "cat1 \<in> processed st")
    case True
    with Cons a show ?thesis by simp
  next
    case False
    show ?thesis
    proof (cases "similar_loop cat1 kw1 (processed st) all [cat1]")
      case (Inl e')
      with False Cons.prems a similar_loop_Inl [OF Inl] show ?thesis by simp
    next
      case (Inr cl)
      from similar_loop_Inr [OF Inr] have "cl \<noteq> []" by simp
      then obtain m where m: "get_merged_category_name namer cl = Inr m"
        using get_merged_category_name_nonempty by metis
      with False Cons.prems a Inr
      have "merge_loop namer fd all items
              (absorb m fd cl (st\<lparr>clusters := clusters st @ [(m, cl)]\<rparr>)) = Inl e"
        by (simp del: absorb.simps)
      then show ?thesis by (rule Cons.IH)
    qed
  qed
qed

lemma merge_run_error: "merge_run namer fd = Inl e \<Longrightarrow> e = ZeroDivisionError"
  unfolding merge_run_def by (rule merge_loop_error)

lemma neighbours_skip_processed:
  assumes "fst ` set pre \<subseteq> P"
  shows "neighbours cat1 kw1 P (pre @ (cat1, kw1') # items) = neighbours cat1 kw1 P items"
proof -
  have "filter (\<lambda>(c, k). c \<noteq> cat1 \<and> c \<notin> P \<and> is_similar kw1 k) pre = []"
    using assms by (auto simp: filter_empty_conv)
  then show ?thesis by (simp add: neighbours_def)
qed

lemma neighbours_subseq: "subseq (neighbours cat1 kw1 P items) (map fst items)"
  unfolding neighbours_def by (rule subseq_map) simp

lemma merge_loop_clusters_ordered:
  assumes "merge_loop namer fd all items st = Inr st'"
    and "all = pre @ items"
    and "fst ` set pre \<subseteq> processed st"
    and "\<forall>(n, cl) \<in> set (clusters st).
           get_merged_category_name namer cl = Inr n \<and> subseq cl (map fst all)"
  shows "\<forall>(n, cl) \<in> set (clusters st').
           get_merged_category_name namer cl = Inr n \<and> subseq cl (map fst all)"
  using assms
proof (induction items arbitrary: st pre)
  case Nil
  then show ?case by simp
next
  case (Cons a items)
  obtain cat1 kw1 where a: "a = (cat1, kw1)" by (cases a)
  have all': "all = (pre @ [a]) @ items" using Cons.prems(2) by simp
  show ?case
  proof (cases "cat1 \<in> processed st")
    case True
    with Cons.prems a have run: "merge_loop namer fd all items st = Inr st'" by simp
    have "fst ` set (pre @ [a]) \<subseteq> processed st" using Cons.prems(3) True a by simp
    from Cons.IH [OF run all' this Cons.prems(4)] show ?thesis .
  next
    case False
    define cl where "cl = cat1 # neighbours cat1 kw1 (processed st) all"
    have full: "merge_loop namer fd all ((cat1, kw1) # items) st = Inr st'"
      using Cons.prems(1) unfolding a .
    obtain merged_name where
      name: "get_merged_category_name namer cl = Inr merged_name" and
      run: "merge_loop namer fd all items
              (absorb merged_name fd cl (st\<lparr>clusters := clusters st @ [(merged_name, cl)]\<rparr>))
            = Inr st'"
      using merge_loop_unfold_seed [OF full False] unfolding cl_def by blast
    let ?st2 = "absorb merged_name fd cl (st\<lparr>clusters := clusters st @ [(merged_name, cl)]\<rparr>)"
    have "neighbours cat1 kw1 (processed st) all = neighbours cat1 kw1 (processed st) items"
      using neighbours_skip_processed [OF Cons.prems(3)] Cons.prems(2) a by simp
    then have "cl = cat1 # neighbours cat1 kw1 (processed st) items" by (simp add: cl_def)
    moreover have "subseq (cat1 # neighbours cat1 kw1 (processed st) items) (map fst (a # items))"
      using neighbours_subseq [of cat1 kw1 "processed st" items] a by simp
    ultimately have "subseq cl (map fst all)"
      using Cons.prems(2) by (simp add: list_emb_append2)
    with name Cons.prems(4)
    have c: "\<forall>(n, cl) \<in> set (clusters ?st2).
               get_merged_category_name namer cl = Inr n \<and> subseq cl (map fst all)"
      by (simp add: absorb_clusters)
    have "cat1 \<in> set cl" by (simp add: cl_def)
    with Cons.prems(3) a have p: "fst ` set (pre @ [a]) \<subseteq> processed ?st2"
      by (auto simp: absorb_processed)
    from Cons.IH [OF run all' p c] show ?thesis .
  qed
qed

lemma merge_run_clusters_ordered:
  assumes "merge_run namer fd = Inr st" and "(n, cl) \<in> set (clusters st)"
  shows "get_merged_category_name namer cl = Inr n"
    and "subseq cl (first_seen (map cat_of fd))"
proof -
  let ?st0 = "\<lparr>merged = [], processed = {}, clusters = []\<rparr>"
  from assms have run: "merge_loop namer fd (category_keywords fd) (category_keywords fd) ?st0 = Inr st"
    by (simp add: merge_run_def)
  have "\<forall>(n, cl) \<in> set (clusters st).
           get_merged_category_name namer cl = Inr n \<and> subseq cl (map fst (category_keywords fd))"
    by (rule merge_loop_clusters_ordered [OF run, of "[]"]) simp_all
  with assms(2) category_keywords_first_seen [of fd]
  show "get_merged_category_name namer cl = Inr n" "subseq cl (first_seen (map cat_of fd))"
    by auto
qed

lemma dict_append_keys:
  "map fst (dict_append d k v) = (if k \<in> fst ` set d then map fst d else map fst d @ [k])"
  by (induction d k v rule: dict_append.induct) auto

lemma in_group_dict_append:
  "in_group (dict_append d k v) n f = (in_group d n f \<or> (k = n \<and> v = f))"
  by (induction d k v rule: dict_append.induct) (auto simp: in_group_def)

lemma dict_append_key_set: "fst ` set (dict_append d k v) = insert k (fst ` set d)"
  by (induction d k v rule: dict_append.induct) auto

lemma dict_append_distinct: "distinct (map fst d) \<Longrightarrow> distinct (map fst (dict_append d k v))"
  by (simp add: dict_append_keys)

lemma append_files_distinct:
  "distinct (map fst d) \<Longrightarrow> distinct (map fst (append_files m c fd d))"
  by (induction m c fd d rule: append_files.induct) (simp_all add: dict_append_distinct)

lemma append_files_key_set: "fst ` set (append_files m c fd d) \<subseteq> insert m (fst ` set d)"
proof (induction m c fd d rule: append_files.induct)
  case (1 m c d)
  then show ?case by auto
next
  case (2 m c p category n kws fd d)
  show ?case
  proof (cases "category = c")
    case True
    with 2 dict_append_key_set [of d m "(p, n)"] show ?thesis by simp
  next
    case False
    with 2 show ?thesis by simp
  qed
qed

lemma in_group_append_files:
  "in_group (append_files m c fd d) n f
     = (in_group d n f \<or> (m = n \<and> (\<exists>r \<in> set fd. cat_of r = c \<and> file_of r = f)))"
  by (induction m c fd d rule: append_files.induct)
     (auto simp: in_group_dict_append file_of_def cat_of_def)

lemma absorb_distinct:
  "distinct (map fst (merged st)) \<Longrightarrow> distinct (map fst (merged (absorb m fd cs st)))"
  by (induction m fd cs st rule: absorb.induct) (simp_all add: append_files_distinct)

lemma absorb_key_set:
  "fst ` set (merged (absorb m fd cs st)) \<subseteq> insert m (fst ` set (merged st))"
proof (induction m fd cs st rule: absorb.induct)
  case (1 m fd st)
  then show ?case by auto
next
  case (2 m fd c cs st)
  let ?st = "st\<lparr>processed := insert c (processed st),
                merged := append_files m c fd (merged st)\<rparr>"
  have "fst ` set (merged (absorb m fd cs ?st)) \<subseteq> insert m (fst ` set (merged ?st))"
    by (rule 2)
  also have "\<dots> \<subseteq> insert m (fst ` set (merged st))"
    using append_files_key_set [of m c fd "merged st"] by (simp add: subset_insertI2)
  finally show ?case by simp
qed

lemma in_group_absorb:
  "in_group (merged (absorb m fd cs st)) n f
     = (in_group (merged st) n f \<or> (m = n \<and> f \<in> cluster_files fd cs))"
  by (induction m fd cs st rule: absorb.induct)
     (auto simp: in_group_append_files cluster_files_def)

lemma merge_loop_groups:
  assumes "merge_loop namer fd all items st = Inr st'"
    and "distinct (map fst (merged st))"
    and "fst ` set (merged st) \<subseteq> fst ` set (clusters st)"
    and "\<forall>n f. in_group (merged st) n f
            = (\<exists>cs. (n, cs) \<in> set (clusters st) \<and> f \<in> cluster_files fd cs)"
  shows "distinct (map fst (merged st'))
       \<and> fst ` set (merged st') \<subseteq> fst ` set (clusters st')
       \<and> (\<forall>n f. in_group (merged st') n f
            = (\<exists>cs. (n, cs) \<in> set (clusters st') \<and> f \<in> cluster_files fd cs))"
  using assms
proof (induction items arbitrary: st)
  case Nil
  then show ?case by simp
next
  case (Cons a items)
  obtain cat1 kw1 where a: "a = (cat1, kw1)" by (cases a)
  show ?case
  proof (cases "cat1 \<in> processed st")
    case True
    with Cons.prems a have "merge_loop namer fd all items st = Inr st'" by simp
    from Cons.IH [OF this Cons.prems(2-4)] show ?thesis .
  next
    case False
    define cl where "cl = cat1 # neighbours cat1 kw1 (processed st) all"
    have full: "merge_loop namer fd all ((cat1, kw1) # items) st = Inr st'"
      using Cons.prems(1) unfolding a .
    obtain m where
      run: "merge_loop namer fd all items
              (absorb m fd cl (st\<lparr>clusters := clusters st @ [(m, cl)]\<rparr>)) = Inr st'"
      using merge_loop_unfold_seed [OF full False] unfolding cl_def by blast
    let ?st1 = "st\<lparr>clusters := clusters st @ [(m, cl)]\<rparr>"
    let ?st2 = "absorb m fd cl ?st1"
    have d: "distinct (map fst (merged ?st2))"
      using absorb_distinct [of ?st1 m fd cl] Cons.prems(2) by simp
    have k: "fst ` set (merged ?st2) \<subseteq> fst ` set (clusters ?st2)"
      using absorb_key_set [of m fd cl ?st1] Cons.prems(3) by (auto simp: absorb_clusters)
    have g: "\<forall>n f. in_group (merged ?st2) n f
            = (\<exists>cs. (n, cs) \<in> set (clusters ?st2) \<and> f \<in> cluster_files fd cs)"
      using Cons.prems(4) by (auto simp: in_group_absorb absorb_clusters)
    from Cons.IH [OF run d k g] show ?thesis .
  qed
qed

lemma merge_run_groups:
  assumes "merge_run namer fd = Inr st"
  shows "distinct (map fst (merged st))"
    and "fst ` set (merged st) \<subseteq> fst ` set (clusters st)"
    and "in_group (merged st) n f
            = (\<exists>cs. (n, cs) \<in> set (clusters st) \<and> f \<in> cluster_files fd cs)"
proof -
  let ?st0 = "\<lparr>merged = [], processed = {}, clusters = []\<rparr>"
  from assms have run: "merge_loop namer fd (category_keywords fd) (category_keywords fd) ?st0 = Inr st"
    by (simp add: merge_run_def)
  have "distinct (map fst (merged st))
       \<and> fst ` set (merged st) \<subseteq> fst ` set (clusters st)
       \<and> (\<forall>n f. in_group (merged st) n f
            = (\<exists>cs. (n, cs) \<in> set (clusters st) \<and> f \<in> cluster_files fd cs))"
    by (rule merge_loop_groups [OF run]) (simp_all add: in_group_def)
  then show "distinct (map fst (merged st))"
    and "fst ` set (merged st) \<subseteq> fst ` set (clusters st)"
    and "in_group (merged st) n f
            = (\<exists>cs. (n, cs) \<in> set (clusters st) \<and> f \<in> cluster_files fd cs)"
    by blast+
qed

lemma merge_run_group_count:
  assumes "merge_run namer fd = Inr st"
  shows "length (merged st) \<le> length (clusters st)"
proof -
  have "length (merged st) = card (fst ` set (merged st))"
    using merge_run_groups(1) [OF assms] distinct_card [of "map fst (merged st)"] by simp
  also have "\<dots> \<le> card (fst ` set (clusters st))"
    using merge_run_groups(2) [OF assms] by (simp add: card_mono)
  also have "\<dots> \<le> length (clusters st)"
    using card_length [of "map fst (clusters st)"] by simp
  finally show ?thesis .
qed

section \<open>When the merging loop returns\<close>

lemma collect_keywords_finite:
  "\<forall>(c, k)\<in>set m. finite k \<Longrightarrow> \<forall>(c, k)\<in>set (collect_keywords m fd). finite k"
proof (induction m fd rule: collect_keywords.induct)
  case (1 m)
  then show ?case by simp
next
  case (2 m p category n kws file_data)
  have "\<forall>(c, k)\<in>set (kw_update m category kws). finite k"
    using 2(2) by (induction m category kws rule: kw_update.induct) auto
  from 2(1) [OF this] show ?case by simp
qed

lemma category_keywords_finite: "\<forall>(c, k)\<in>set (category_keywords fd). finite k"
  unfolding category_keywords_def by (rule collect_keywords_finite) simp

lemma similar_loop_returns:
  assumes "\<forall>(c, k)\<in>set items. c \<noteq> cat1 \<longrightarrow> finite (kw1 \<union> k) \<and> kw1 \<union> k \<noteq> {}"
  shows "\<exists>r. similar_loop cat1 kw1 P items acc = Inr r"
  using assms
proof (induction items arbitrary: acc)
  case Nil
  then show ?case by simp
next
  case (Cons a items)
  obtain c k where a: "a = (c, k)" by (cases a)
  show ?case
  proof (cases "c \<noteq> cat1 \<and> c \<notin> P")
    case False
    with Cons a show ?thesis by auto
  next
    case True
    with Cons.prems a have "card (kw1 \<union> k) \<noteq> 0" by auto
    then obtain s where "similarity kw1 k = Inr s" by (simp add: similarity_def)
    with Cons True a show ?thesis by auto
  qed
qed

lemma merge_loop_returns:
  assumes "set items \<subseteq> set all"
    and "\<And>c k c' k'. (c, k) \<in> set all \<Longrightarrow> (c', k') \<in> set all \<Longrightarrow> c \<noteq> c'
           \<Longrightarrow> finite (k \<union> k') \<and> k \<union> k' \<noteq> {}"
  shows "\<exists>st'. merge_loop namer fd all items st = Inr st'"
  using assms(1)
proof (induction items arbitrary: st)
  case Nil
  then show ?case by simp
next
  case (Cons a items)
  obtain cat1 kw1 where a: "a = (cat1, kw1)" by (cases a)
  from Cons.prems have sub: "set items \<subseteq> set all" by simp
  show ?case
  proof (cases "cat1 \<in> processed st")
    case True
    with Cons.IH [OF sub, of st] a show ?thesis by simp
  next
    case False
    have mem: "(cat1, kw1) \<in> set all" using Cons.prems a by simp
    have "\<forall>(c, k)\<in>set all. c \<noteq> cat1 \<longrightarrow> finite (kw1 \<union> k) \<and> kw1 \<union> k \<noteq> {}"
    proof (intro ballI)
      fix x assume x: "x \<in> set all"
      obtain c k where xc: "x = (c, k)" by (cases x)
      show "case x of (c, k) \<Rightarrow> c \<noteq> cat1 \<longrightarrow> finite (kw1 \<union> k) \<and> kw1 \<union> k \<noteq> {}"
        unfolding xc using assms(2) [OF mem x [unfolded xc]] by simp
    qed
    from similar_loop_returns [OF this] obtain cl where
      cl: "similar_loop cat1 kw1 (processed st) all [cat1] = Inr cl" by blast
    from similar_loop_Inr [OF cl] have "cl \<noteq> []" by simp
    then obtain m where m: "get_merged_category_name namer cl = Inr m"
      using get_merged_category_name_nonempty by blast
    from Cons.IH [OF sub, of "absorb m fd cl (st\<lparr>clusters := clusters st @ [(m, cl)]\<rparr>)"]
    obtain st' where "merge_loop namer fd all items
        (absorb m fd cl (st\<lparr>clusters := clusters st @ [(m, cl)]\<rparr>)) = Inr st'" by blast
    with False a cl m show ?thesis by (simp del: absorb.simps)
  qed
qed

lemma merge_run_returns:
  assumes "\<And>c k c' k'. (c, k) \<in> set (category_keywords fd)
             \<Longrightarrow> (c', k') \<in> set (category_keywords fd) \<Longrightarrow> c \<noteq> c' \<Longrightarrow> k \<union> k' \<noteq> {}"
  shows "\<exists>st. merge_run namer fd = Inr st"
  unfolding merge_run_def
proof (rule merge_loop_returns)
  show "set (category_keywords fd) \<subseteq> set (category_keywords fd)" by simp
next
  fix c k c' k'
  assume m: "(c, k) \<in> set (category_keywords fd)" "(c', k') \<in> set (category_keywords fd)"
    and ne: "c \<noteq> c'"
  from category_keywords_finite [of fd] m have "finite k" "finite k'" by auto
  with assms [OF m ne] show "finite (k \<union> k') \<and> k \<union> k' \<noteq> {}" by simp
qed

section \<open>The loop that avoids existing names\<close>

lemma str_nat_nonempty: "str_nat n \<noteq> []"
  by (subst str_nat.simps) simp

lemma char_of_digit_inj:
  assumes "a < 10" and "b < 10" and "(char_of (48 + a :: nat) :: char) = char_of (48 + b)"
  shows "a = b"
proof -
  from assms(3)
  have "(of_char (char_of (48 + a) :: char) :: nat) = of_char (char_of (48 + b) :: char)"
    by simp
  with assms(1,2) show ?thesis by simp
qed

lemma str_nat_inj: "str_nat m = str_nat n \<Longrightarrow> m = n"
proof (induction m arbitrary: n rule: less_induct)
  case (less m)
  show ?case
  proof (cases "m < 10")
    case True
    show ?thesis
    proof (cases "n < 10")
      case n: True
      from less.prems True n have "(char_of (48 + m) :: char) = char_of (48 + n)"
        by (simp add: str_nat.simps [of m] str_nat.simps [of n])
      with True n show ?thesis by (intro char_of_digit_inj)
    next
      case False
      with less.prems True str_nat_nonempty [of "n div 10"] show ?thesis
        by (simp add: str_nat.simps [of m] str_nat.simps [of n])
    qed
  next
    case False
    show ?thesis
    proof (cases "n < 10")
      case True
      with less.prems False str_nat_nonempty [of "m div 10"] show ?thesis
        by (simp add: str_nat.simps [of m] str_nat.simps [of n])
    next
      case n: False
      from less.prems False n
      have e: "str_nat (m div 10) = str_nat (n div 10)"
        and d: "(char_of (48 + m mod 10) :: char) = char_of (48 + n mod 10)"
        by (simp_all add: str_nat.simps [of m] str_nat.simps [of n])
      from False have "m div 10 < m" by simp
      from less.IH [OF this e] have "m div 10 = n div 10" .
      moreover from d have "m mod 10 = n mod 10"
        by (intro char_of_digit_inj) simp_all
      ultimately show ?thesis by (metis div_mult_mod_eq)
    qed
  qed
qed


lemma candidate_eq:
  "candidate cp nn k = cp @ ''/'' @ fst (splitext nn) @ ''_'' @ str_nat k @ snd (splitext nn)"
  by (cases "fst (splitext nn)") (simp_all add: candidate_def joinpath_def)

lemma candidate_inj: "candidate cp nn k = candidate cp nn k' \<Longrightarrow> k = k'"
  by (simp add: candidate_eq str_nat_inj)


section \<open>Every group has a member\<close>

lemma dict_append_nonempty:
  "\<forall>(n, files)\<in>set d. files \<noteq> [] \<Longrightarrow> \<forall>(n, files)\<in>set (dict_append d k v). files \<noteq> []"
  by (induction d k v rule: dict_append.induct) auto

lemma append_files_nonempty:
  "\<forall>(n, files)\<in>set d. files \<noteq> [] \<Longrightarrow> \<forall>(n, files)\<in>set (append_files m c fd d). files \<noteq> []"
proof (induction m c fd d rule: append_files.induct)
  case (1 m c d)
  then show ?case by simp
next
  case (2 m c p category n kws fd d)
  have "\<forall>(n, files)\<in>set (if category = c then dict_append d m (p, n) else d). files \<noteq> []"
    using 2(2) dict_append_nonempty [OF 2(2), of m "(p, n)"] by simp
  from 2(1) [OF this] show ?case by simp
qed

lemma absorb_nonempty:
  "\<forall>(n, files)\<in>set (merged st). files \<noteq> [] \<Longrightarrow>
   \<forall>(n, files)\<in>set (merged (absorb m fd cs st)). files \<noteq> []"
proof (induction m fd cs st rule: absorb.induct)
  case (1 m fd st)
  then show ?case by simp
next
  case (2 m fd c cs st)
  show ?case using 2(1) append_files_nonempty [OF 2(2), of m c fd] by simp
qed

lemma merge_loop_nonempty:
  assumes "merge_loop namer fd all items st = Inr st'"
    and "\<forall>(n, files)\<in>set (merged st). files \<noteq> []"
  shows "\<forall>(n, files)\<in>set (merged st'). files \<noteq> []"
  using assms
proof (induction items arbitrary: st)
  case Nil
  then show ?case by simp
next
  case (Cons a items)
  obtain cat1 kw1 where a: "a = (cat1, kw1)" by (cases a)
  show ?case
  proof (cases "cat1 \<in> processed st")
    case True
    with Cons a show ?thesis by simp
  next
    case False
    have full: "merge_loop namer fd all ((cat1, kw1) # items) st = Inr st'"
      using Cons.prems(1) unfolding a .
    obtain m where
      run: "merge_loop namer fd all items
              (absorb m fd (cat1 # neighbours cat1 kw1 (processed st) all)
                 (st\<lparr>clusters := clusters st
                        @ [(m, cat1 # neighbours cat1 kw1 (processed st) all)]\<rparr>)) = Inr st'"
      using merge_loop_unfold_seed [OF full False] by blast
    show ?thesis
      by (rule Cons.IH [OF run], rule absorb_nonempty) (use Cons.prems(2) in simp)
  qed
qed

lemma merge_run_nonempty:
  "merge_run namer fd = Inr ms \<Longrightarrow> \<forall>(n, files)\<in>set (merged ms). files \<noteq> []"
  unfolding merge_run_def by (erule merge_loop_nonempty) simp

section \<open>Paths and their resolution\<close>

lemma split_on_nonempty: "split_on sep s \<noteq> []"
  by (induction s) (auto split: list.splits)

lemma split_on_append:
  "split_on sep (a @ sep # b) = split_on sep a @ split_on sep b"
proof (induction a)
  case Nil
  then show ?case by simp
next
  case (Cons c a)
  show ?case
  proof (cases "c = sep")
    case True
    with Cons show ?thesis by simp
  next
    case False
    obtain w ws where s: "split_on sep a = w # ws"
      using split_on_nonempty [of sep a] by (cases "split_on sep a") auto
    with False Cons show ?thesis by simp
  qed
qed

lemma split_on_plain: "sep \<notin> set n \<Longrightarrow> split_on sep n = [n]"
  by (induction n) auto

lemma parts_append: "parts (a @ CHR ''/'' # b) = parts a @ parts b"
  by (simp add: parts_def split_on_append)

lemma parts_plain: "CHR ''/'' \<notin> set n \<Longrightarrow> n \<noteq> [] \<Longrightarrow> parts n = [n]"
  by (simp add: parts_def split_on_plain)

lemma parts_joinpath:
  "CHR ''/'' \<notin> set n \<Longrightarrow>
   parts (joinpath p n) = parts p @ (if n = [] \<or> n = ''.'' then [] else [n])"
  by (auto simp: joinpath_def parts_append parts_plain)

lemma walk_append:
  "walk fs cur (cs @ ds) = (case walk fs cur cs of None \<Rightarrow> None | Some d \<Rightarrow> walk fs d ds)"
  by (induction cs arbitrary: cur) auto

lemma walk_start_dir: "walk fs cur (c # cs) = Some r \<Longrightarrow> cur \<in> fs_dirs fs"
  by (auto split: if_splits)

lemma walk_mono:
  assumes "walk fs cur cs = Some r"
    and "fs_dirs fs \<subseteq> fs_dirs fs'"
    and "r \<in> fs_files fs \<or> r \<in> fs_dirs fs \<Longrightarrow> r \<in> fs_files fs' \<or> r \<in> fs_dirs fs'"
  shows "walk fs' cur cs = Some r"
  using assms(1)
proof (induction cs arbitrary: cur)
  case Nil
  then show ?case by simp
next
  case (Cons c cs)
  from Cons.prems have cur: "cur \<in> fs_dirs fs" by (rule walk_start_dir)
  with assms(2) have cur': "cur \<in> fs_dirs fs'" by blast
  show ?case
  proof (cases "c = ''.''")
    case True
    with Cons cur cur' show ?thesis by simp
  next
    case False
    note nd = this
    show ?thesis
    proof (cases "c = ''..''")
      case True
      with Cons cur cur' nd show ?thesis by simp
    next
      case False
      with Cons.prems nd cur have ex: "cur @ [c] \<in> fs_files fs \<or> cur @ [c] \<in> fs_dirs fs"
        and w: "walk fs (cur @ [c]) cs = Some r" by (auto split: if_splits)
      have "cur @ [c] \<in> fs_files fs' \<or> cur @ [c] \<in> fs_dirs fs'"
      proof (cases cs)
        case Nil
        with w have "r = cur @ [c]" by simp
        with ex assms(3) show ?thesis by blast
      next
        case (Cons c' cs')
        with w have "walk fs (cur @ [c]) (c' # cs') = Some r" by simp
        then have "cur @ [c] \<in> fs_dirs fs" by (rule walk_start_dir)
        with assms(2) show ?thesis by blast
      qed
      with Cons.IH [OF w] nd False cur' show ?thesis by simp
    qed
  qed
qed

section \<open>The loop that avoids existing names, on a file system\<close>

lemma dedup_loop_unfold:
  "dedup_loop R fs cp nn p c
     = (if p \<in> R then Some (Inl PermissionError)
        else if present fs p then dedup_loop R fs cp nn (candidate cp nn c) (c + 1)
        else Some (Inr p))"
  by (subst dedup_loop.simps) (simp add: candidate_def exists_path_def present_def)

lemma dedup_loop_result_aux:
  assumes "dedup_loop R fs cp nn p c = Some r"
  shows "\<forall>d. r = Inr d \<longrightarrow>
           \<not> present fs d
           \<and> (d = p \<or> (present fs p \<and> (\<exists>k\<ge>c. d = candidate cp nn k
                   \<and> (\<forall>j. c \<le> j \<and> j < k \<longrightarrow> present fs (candidate cp nn j)))))"
proof (rule dedup_loop.raw_induct [where P = "\<lambda>R fs cp nn p c r. \<forall>d. r = Inr d \<longrightarrow>
           \<not> present fs d
           \<and> (d = p \<or> (present fs p \<and> (\<exists>k\<ge>c. d = candidate cp nn k
                   \<and> (\<forall>j. c \<le> j \<and> j < k \<longrightarrow> present fs (candidate cp nn j)))))", OF _ assms])
  fix f :: "path set \<Rightarrow> fsys \<Rightarrow> path \<Rightarrow> string \<Rightarrow> path \<Rightarrow> nat \<Rightarrow> (error + path) option"
  fix R fs cp nn p c r
  assume IH: "\<And>R fs cp nn p c r. f R fs cp nn p c = Some r \<Longrightarrow> \<forall>d. r = Inr d \<longrightarrow>
           \<not> present fs d
           \<and> (d = p \<or> (present fs p \<and> (\<exists>k\<ge>c. d = candidate cp nn k
                   \<and> (\<forall>j. c \<le> j \<and> j < k \<longrightarrow> present fs (candidate cp nn j)))))"
  assume eq: "(case exists_path R fs p of
       Inl e \<Rightarrow> Some (Inl e)
     | Inr found \<Rightarrow>
         if found
         then f R fs cp nn (joinpath cp (fst (splitext nn) @ ''_'' @ str_nat c @ snd (splitext nn))) (c + 1)
         else Some (Inr p)) = Some r"
  show "\<forall>d. r = Inr d \<longrightarrow>
           \<not> present fs d
           \<and> (d = p \<or> (present fs p \<and> (\<exists>k\<ge>c. d = candidate cp nn k
                   \<and> (\<forall>j. c \<le> j \<and> j < k \<longrightarrow> present fs (candidate cp nn j)))))"
  proof (intro allI impI)
    fix d assume r: "r = Inr d"
    show "\<not> present fs d
           \<and> (d = p \<or> (present fs p \<and> (\<exists>k\<ge>c. d = candidate cp nn k
                   \<and> (\<forall>j. c \<le> j \<and> j < k \<longrightarrow> present fs (candidate cp nn j)))))"
    proof (cases "p \<in> R")
      case True
      with eq r show ?thesis by (simp add: exists_path_def)
    next
      case notR: False
      show ?thesis
      proof (cases "present fs p")
        case False
        with eq r notR show ?thesis by (auto simp: exists_path_def present_def)
      next
        case True
        with eq notR have "f R fs cp nn (candidate cp nn c) (c + 1) = Some r"
          by (simp add: candidate_def exists_path_def present_def)
        from IH [OF this] r
        have nd: "\<not> present fs d"
          and alt: "d = candidate cp nn c \<or> (present fs (candidate cp nn c)
                   \<and> (\<exists>k\<ge>c + 1. d = candidate cp nn k
                   \<and> (\<forall>j. c + 1 \<le> j \<and> j < k \<longrightarrow> present fs (candidate cp nn j))))"
          by blast+
        from alt have "\<exists>k\<ge>c. d = candidate cp nn k
           \<and> (\<forall>j. c \<le> j \<and> j < k \<longrightarrow> present fs (candidate cp nn j))"
        proof
          assume "d = candidate cp nn c"
          then show ?thesis by (intro exI [of _ c]) auto
        next
          assume "present fs (candidate cp nn c) \<and> (\<exists>k\<ge>c + 1. d = candidate cp nn k
                   \<and> (\<forall>j. c + 1 \<le> j \<and> j < k \<longrightarrow> present fs (candidate cp nn j)))"
          then obtain k where c: "present fs (candidate cp nn c)"
            and k: "c + 1 \<le> k" "d = candidate cp nn k"
            and a: "\<forall>j. c + 1 \<le> j \<and> j < k \<longrightarrow> present fs (candidate cp nn j)" by blast
          have "\<forall>j. c \<le> j \<and> j < k \<longrightarrow> present fs (candidate cp nn j)"
          proof (intro allI impI)
            fix j assume "c \<le> j \<and> j < k"
            then have "j = c \<or> (c + 1 \<le> j \<and> j < k)" by auto
            with c a show "present fs (candidate cp nn j)" by blast
          qed
          with k show ?thesis by (intro exI [of _ k]) simp
        qed
        with nd True show ?thesis by blast
      qed
    qed
  qed
qed

lemma dedup_loop_result:
  assumes "dedup_loop R fs cp nn p c = Some (Inr d)"
  shows "\<not> present fs d"
    and "d = p \<or> (present fs p \<and> (\<exists>k\<ge>c. d = candidate cp nn k
                   \<and> (\<forall>j. c \<le> j \<and> j < k \<longrightarrow> present fs (candidate cp nn j))))"
  using dedup_loop_result_aux [OF assms] by blast+



lemma dedup_loop_terminates:
  assumes fin: "finite {k. present fs (candidate cp nn k)}"
  shows "\<exists>r. dedup_loop R fs cp nn p c = Some r"
proof -
  have "\<forall>p. \<exists>r. dedup_loop R fs cp nn p c = Some r"
  proof (induction c rule: measure_induct_rule [where f = "\<lambda>c. card {k. c \<le> k \<and> present fs (candidate cp nn k)}"])
    case (less c)
    show ?case
    proof
      fix p
      show "\<exists>r. dedup_loop R fs cp nn p c = Some r"
      proof (cases "p \<in> R \<or> \<not> present fs p")
        case True
        then show ?thesis by (subst dedup_loop_unfold) auto
      next
        case False
        then have p: "p \<notin> R" "present fs p" by auto
        show ?thesis
        proof (cases "candidate cp nn c \<in> R \<or> \<not> present fs (candidate cp nn c)")
          case True
          with p show ?thesis
            by (subst dedup_loop_unfold, simp, subst dedup_loop_unfold, auto)
        next
          case False
          then have c: "present fs (candidate cp nn c)" by simp
          have "c \<in> {k. c \<le> k \<and> present fs (candidate cp nn k)}"
            and "c \<notin> {k. c + 1 \<le> k \<and> present fs (candidate cp nn k)}"
            and "{k. c + 1 \<le> k \<and> present fs (candidate cp nn k)}
                   \<subseteq> {k. c \<le> k \<and> present fs (candidate cp nn k)}"
            using c by auto
          then have "{k. c + 1 \<le> k \<and> present fs (candidate cp nn k)}
                   \<subset> {k. c \<le> k \<and> present fs (candidate cp nn k)}"
            by blast
          moreover have "finite {k. c \<le> k \<and> present fs (candidate cp nn k)}"
            using fin by (rule rev_finite_subset) auto
          ultimately have "card {k. c + 1 \<le> k \<and> present fs (candidate cp nn k)}
                         < card {k. c \<le> k \<and> present fs (candidate cp nn k)}"
            by (rule psubset_card_mono [rotated])
          from less [OF this] p show ?thesis
            by (subst dedup_loop_unfold) simp
        qed
      qed
    qed
  qed
  then show ?thesis by blast
qed

lemma str_nat_no_sep: "CHR ''/'' \<notin> set (str_nat n)"
proof (induction n rule: str_nat.induct)
  case (1 n)
  have d: "\<And>a. a < 10 \<Longrightarrow> (char_of (48 + a :: nat) :: char) \<noteq> CHR ''/''"
  proof
    fix a :: nat assume a: "a < 10" and e: "(char_of (48 + a) :: char) = CHR ''/''"
    from e have "(of_char (char_of (48 + a) :: char) :: nat) = of_char (CHR ''/'')" by simp
    with a show False by simp
  qed
  show ?case
  proof (cases "n < 10")
    case True
    with d [of n] show ?thesis by (simp add: str_nat.simps [of n])
  next
    case False
    with 1 d [of "n mod 10"] show ?thesis by (simp add: str_nat.simps [of n])
  qed
qed

lemma splitext_chars:
  "set (fst (splitext p)) \<subseteq> set p" "set (snd (splitext p)) \<subseteq> set p"
  by (auto simp: splitext_def Let_def dest: in_set_takeD in_set_dropD)

lemma candidate_suffixed: "candidate cp nn k = joinpath cp (suffixed nn k)"
  by (simp add: candidate_def suffixed_def)

lemma suffixed_plain:
  assumes "CHR ''/'' \<notin> set nn"
  shows "CHR ''/'' \<notin> set (suffixed nn k)" "suffixed nn k \<noteq> []" "suffixed nn k \<noteq> ''.''"
    "suffixed nn k \<noteq> ''..''"
proof -
  show "CHR ''/'' \<notin> set (suffixed nn k)"
    using assms splitext_chars [of nn] str_nat_no_sep [of k] by (auto simp: suffixed_def)
  have u: "CHR ''_'' \<in> set (suffixed nn k)" by (simp add: suffixed_def)
  from u show "suffixed nn k \<noteq> []" by auto
  from u show "suffixed nn k \<noteq> ''.''" by auto
  from u show "suffixed nn k \<noteq> ''..''" by auto
qed

lemma suffixed_inj: "suffixed nn k = suffixed nn k' \<Longrightarrow> k = k'"
  by (simp add: suffixed_def str_nat_inj)

lemma walk_name:
  "c \<noteq> ''.'' \<Longrightarrow> c \<noteq> ''..'' \<Longrightarrow>
   walk fs d [c] = (if d \<in> fs_dirs fs \<and> (d @ [c] \<in> fs_files fs \<or> d @ [c] \<in> fs_dirs fs)
                    then Some (d @ [c]) else None)"
  by simp

lemma lookup_child:
  assumes "CHR ''/'' \<notin> set c" "c \<noteq> []" "c \<noteq> ''.''" "c \<noteq> ''..''"
  shows "lookup fs (joinpath p c)
       = (case lookup fs p of
            None \<Rightarrow> None
          | Some d \<Rightarrow> if d \<in> fs_dirs fs \<and> (d @ [c] \<in> fs_files fs \<or> d @ [c] \<in> fs_dirs fs)
                      then Some (d @ [c]) else None)"
  using assms by (simp add: lookup_def parts_joinpath walk_append walk_name split: option.splits)

lemma finite_candidates:
  assumes "finite (fs_files fs)" "finite (fs_dirs fs)" "CHR ''/'' \<notin> set nn"
  shows "finite {k. present fs (candidate cp nn k)}"
proof (cases "lookup fs cp")
  case None
  then have "{k. present fs (candidate cp nn k)} = {}"
    by (simp add: present_def candidate_suffixed lookup_child suffixed_plain [OF assms(3)])
  then show ?thesis by simp
next
  case (Some d)
  have "inj (\<lambda>k. d @ [suffixed nn k])"
    by (rule injI) (simp add: suffixed_inj)
  then have "finite ((\<lambda>k. d @ [suffixed nn k]) -` (fs_files fs \<union> fs_dirs fs))"
    using assms(1,2) by (intro finite_vimageI) simp_all
  moreover have "{k. present fs (candidate cp nn k)}
                   \<subseteq> (\<lambda>k. d @ [suffixed nn k]) -` (fs_files fs \<union> fs_dirs fs)"
    using Some
    by (auto simp: present_def candidate_suffixed lookup_child suffixed_plain [OF assms(3)]
             split: if_splits)
  ultimately show ?thesis by (rule rev_finite_subset)
qed

lemma resolve_destination_result:
  assumes "resolve_destination R fs cp nn = Some (Inr d)"
  shows "least_free fs cp nn d"
  using dedup_loop_result [OF assms [unfolded resolve_destination_def]]
  unfolding least_free_def by blast

lemma resolve_destination_terminates:
  assumes "finite (fs_files fs)" "finite (fs_dirs fs)" "CHR ''/'' \<notin> set nn"
  shows "\<exists>r. resolve_destination R fs cp nn = Some r"
  unfolding resolve_destination_def
  by (rule dedup_loop_terminates) (rule finite_candidates [OF assms])

lemma dedup_loop_error_aux:
  assumes "dedup_loop R fs cp nn p c = Some r"
  shows "\<forall>e. r = Inl e \<longrightarrow> e = PermissionError \<and> R \<noteq> {}"
proof (rule dedup_loop.raw_induct [where P = "\<lambda>R fs cp nn p c r.
          \<forall>e. r = Inl e \<longrightarrow> e = PermissionError \<and> R \<noteq> {}", OF _ assms])
  fix f :: "path set \<Rightarrow> fsys \<Rightarrow> path \<Rightarrow> string \<Rightarrow> path \<Rightarrow> nat \<Rightarrow> (error + path) option"
  fix R fs cp nn p c r
  assume IH: "\<And>R fs cp nn p c r. f R fs cp nn p c = Some r \<Longrightarrow>
     \<forall>e. r = Inl e \<longrightarrow> e = PermissionError \<and> R \<noteq> {}"
  assume eq: "(case exists_path R fs p of
       Inl e \<Rightarrow> Some (Inl e)
     | Inr found \<Rightarrow>
         if found
         then f R fs cp nn (joinpath cp (fst (splitext nn) @ ''_'' @ str_nat c @ snd (splitext nn))) (c + 1)
         else Some (Inr p)) = Some r"
  show "\<forall>e. r = Inl e \<longrightarrow> e = PermissionError \<and> R \<noteq> {}"
  proof (cases "p \<in> R")
    case True
    with eq show ?thesis by (auto simp: exists_path_def)
  next
    case False
    show ?thesis
    proof (cases "lookup fs p = None")
      case True
      with eq False show ?thesis by (auto simp: exists_path_def)
    next
      case present: False
      with eq False
      have "f R fs cp nn (joinpath cp (fst (splitext nn) @ ''_'' @ str_nat c @ snd (splitext nn))) (c + 1) = Some r"
        by (auto simp: exists_path_def)
      from IH [OF this] show ?thesis .
    qed
  qed
qed

lemma resolve_destination_error:
  "resolve_destination R fs cp nn = Some (Inl e) \<Longrightarrow> e = PermissionError \<and> R \<noteq> {}"
  unfolding resolve_destination_def using dedup_loop_error_aux by blast

section \<open>The loops of a run as a sequence of steps\<close>

lemma organize_one_eq:
  "organize_one w dry c cp src name st =
     (case resolve_destination (w_stat_raises w) (r_fs st) cp name of
        None \<Rightarrow> None
      | Some r \<Rightarrow>
          Some (record_entry (entry_for w dry c src name (r_fs st) (the_dest r))
                  (fs_after w dry src (r_fs st) (the_dest r)) st))"
proof (cases "resolve_destination (w_stat_raises w) (r_fs st) cp name")
  case None
  then show ?thesis by (simp add: organize_one_def)
next
  case (Some r)
  show ?thesis
  proof (cases r)
    case (Inl e)
    with Some show ?thesis
      by (simp add: organize_one_def record_entry_def entry_for_def fs_after_def the_dest_def
            add_error_def log_decision_def)
  next
    case (Inr d)
    obtain ok fs' where m: "shutil_move (w_mover w) (r_fs st) src d = (ok, fs')"
      by (cases "shutil_move (w_mover w) (r_fs st) src d")
    from Some Inr m show ?thesis
      by (cases dry; cases ok;
          cases "w_print_raises w dry (path_name src) c (path_name d)")
         (simp_all add: organize_one_def record_entry_def entry_for_def fs_after_def
            the_dest_def add_error_def add_moved_def log_decision_def)
  qed
qed

lemma move_files_steps:
  "(case move_files w dry cat (joinpath target cat) files st of
      None \<Rightarrow> None
    | Some st2 \<Rightarrow> run_steps w dry target ss st2)
   = run_steps w dry target (map (\<lambda>(src, name). File cat src name) files @ ss) st"
proof (induction files arbitrary: st)
  case Nil
  then show ?case by simp
next
  case (Cons a files)
  obtain src name where a: "a = (src, name)" by (cases a)
  show ?case unfolding a
    by (cases "organize_one w dry cat (joinpath target cat) src name st")
       (simp_all add: Cons.IH)
qed

lemma organize_groups_steps:
  "organize_groups w dry target groups st = run_steps w dry target (steps_of groups) st"
proof (induction groups arbitrary: st)
  case Nil
  then show ?case by simp
next
  case (Cons g groups)
  obtain cat files where g: "g = (cat, files)" by (cases g)
  have step: "\<And>st1. (case move_files w dry cat (joinpath target cat) files st1 of
           None \<Rightarrow> None
         | Some st2 \<Rightarrow> organize_groups w dry target groups st2)
      = run_steps w dry target (map (\<lambda>(src, name). File cat src name) files @ steps_of groups) st1"
  proof -
    fix st1
    have "(case move_files w dry cat (joinpath target cat) files st1 of
           None \<Rightarrow> None
         | Some st2 \<Rightarrow> organize_groups w dry target groups st2)
        = (case move_files w dry cat (joinpath target cat) files st1 of
           None \<Rightarrow> None
         | Some st2 \<Rightarrow> run_steps w dry target (steps_of groups) st2)"
      by (simp add: Cons.IH cong: option.case_cong)
    also have "\<dots> = run_steps w dry target
                       (map (\<lambda>(src, name). File cat src name) files @ steps_of groups) st1"
      by (rule move_files_steps)
    finally show "(case move_files w dry cat (joinpath target cat) files st1 of
           None \<Rightarrow> None
         | Some st2 \<Rightarrow> organize_groups w dry target groups st2)
      = run_steps w dry target (map (\<lambda>(src, name). File cat src name) files @ steps_of groups) st1" .
  qed
  show ?case
  proof (cases dry)
    case True
    then have d: "dry = True" by simp
    show ?thesis using step unfolding g d by (simp add: Let_def)
  next
    case False
    then have d: "dry = False" by simp
    show ?thesis using step unfolding g d
      by (cases "mkdir (w_mkdir_refused w) (r_fs st) (joinpath target cat)")
         (simp_all add: Let_def)
  qed
qed

lemma is_file_eq:
  "is_file R fs p = (if p \<in> R then Inl PermissionError else Inr (file_at fs p))"
  by (simp add: is_file_def file_at_def)

lemma collect_eq:
  "collect w fs ps (acc, n)
     = (if \<exists>p\<in>set ps. p \<in> w_stat_raises w then Inl PermissionError
        else Inr (acc @ map (analyze_file w) (filter (\<lambda>p. file_at fs p \<and> \<not> excluded p) ps),
                  n + length (filter (\<lambda>p. file_at fs p \<and> \<not> excluded p) ps)))"
  by (induction ps arbitrary: acc n)
     (auto simp: analyze_file_def is_file_eq split: prod.splits)

lemma organize_files_eq:
  "organize_files w source target dry =
     (case start_fs w target dry of
        Inl e \<Rightarrow> Some (Inl e)
      | Inr fs0 \<Rightarrow>
          if \<exists>p\<in>set (w_rglob w source). p \<in> w_stat_raises w then Some (Inl PermissionError)
          else (case merge_run (w_namer w) (file_data_of w fs0 source) of
                  Inl e \<Rightarrow> Some (Inl e)
                | Inr ms \<Rightarrow>
                    run_steps w dry target (steps_of (merged ms))
                      (initial_state fs0 (length (discovered w fs0 source)))))"
proof (cases "start_fs w target dry")
  case (Inl e)
  then show ?thesis by (simp add: organize_files_def start_fs_def)
next
  case (Inr fs0)
  then have s: "(if dry then Inr (w_fs w)
            else mkdir (w_mkdir_refused w) (w_fs w) target) = Inr fs0"
    by (simp add: start_fs_def)
  show ?thesis
  proof (cases "\<exists>p\<in>set (w_rglob w source). p \<in> w_stat_raises w")
    case True
    with Inr s show ?thesis by (simp add: organize_files_def collect_eq)
  next
    case False
    with Inr s show ?thesis
      by (cases "merge_run (w_namer w) (file_data_of w fs0 source)")
         (simp_all add: organize_files_def collect_eq merge_categories_def file_data_of_def
            discovered_def initial_state_def organize_groups_steps)
  qed
qed

lemma organize_files_Inr:
  assumes "organize_files w source target dry = Some (Inr st)"
  obtains fs0 ms where "start_fs w target dry = Inr fs0"
    and "\<forall>p\<in>set (w_rglob w source). p \<notin> w_stat_raises w"
    and "merge_run (w_namer w) (file_data_of w fs0 source) = Inr ms"
    and "run_steps w dry target (steps_of (merged ms))
           (initial_state fs0 (length (discovered w fs0 source))) = Some (Inr st)"
  using assms unfolding organize_files_eq by (auto split: sum.splits if_splits)

section \<open>Counting the iterations of a run\<close>

lemma record_entry_simps:
  "r_trace (record_entry e fs' st) = r_trace st @ [e]"
  "r_fs (record_entry e fs' st) = fs'"
  "st_processed (r_stats (record_entry e fs' st)) = st_processed (r_stats st)"
  "st_moved (r_stats (record_entry e fs' st)) = st_moved (r_stats st) + (if d_moved e then 1 else 0)"
  "st_errors (r_stats (record_entry e fs' st)) = st_errors (r_stats st) + (if d_raised e then 1 else 0)"
  by (simp_all add: record_entry_def)

lemma entry_for_simps:
  "d_category (entry_for w dry c src name fs dest) = c"
  "d_source (entry_for w dry c src name fs dest) = src"
  "d_name (entry_for w dry c src name fs dest) = name"
  "d_seen (entry_for w dry c src name fs dest) = fs"
  "d_dest (entry_for w dry c src name fs dest) = dest"
  by (simp_all add: entry_for_def)

lemma entry_for_dry:
  "\<not> d_moved (entry_for w True c src name fs dest)"
  "fs_after w True src fs dest = fs"
  by (simp_all add: entry_for_def fs_after_def split: option.splits)

lemma entry_for_real: 
  "d_moved (entry_for w False c src name fs dest) \<or> d_raised (entry_for w False c src name fs dest)"
  by (simp add: entry_for_def split: option.splits)

lemma explains_entry_for:
  assumes "resolve_destination (w_stat_raises w) fs (joinpath t c) name = Some r"
  shows "explains w dry t (entry_for w dry c src name fs (the_dest r))"
  using assms by (simp add: explains_def entry_for_simps)

lemma run_steps_File:
  assumes "run_steps w dry t (File c src name # ss) st = Some (Inr st')"
  obtains r where "resolve_destination (w_stat_raises w) (r_fs st) (joinpath t c) name = Some r"
    and "run_steps w dry t ss
           (record_entry (entry_for w dry c src name (r_fs st) (the_dest r))
              (fs_after w dry src (r_fs st) (the_dest r)) st) = Some (Inr st')"
  using assms by (auto simp: organize_one_eq split: option.splits)

lemma run_steps_Mkdir_dry:
  "run_steps w True t (Mkdir c # ss) st = run_steps w True t ss st"
  by simp

lemma run_steps_Mkdir_real:
  assumes "run_steps w False t (Mkdir c # ss) st = Some (Inr st')"
  obtains fs1 where "mkdir (w_mkdir_refused w) (r_fs st) (joinpath t c) = Inr fs1"
    and "run_steps w False t ss (st\<lparr>r_fs := fs1\<rparr>) = Some (Inr st')"
  using assms by (auto split: sum.splits)

lemma run_steps_stats:
  assumes "run_steps w dry t ss st = Some (Inr st')"
    and "st_moved (r_stats st) = length (filter d_moved (r_trace st))"
    and "st_errors (r_stats st) = length (filter d_raised (r_trace st))"
    and "\<forall>e\<in>set (r_trace st). explains w dry t e"
  shows "st_processed (r_stats st') = st_processed (r_stats st)
       \<and> st_moved (r_stats st') = length (filter d_moved (r_trace st'))
       \<and> st_errors (r_stats st') = length (filter d_raised (r_trace st'))
       \<and> (\<forall>e\<in>set (r_trace st'). explains w dry t e)
       \<and> map asked (r_trace st') = map asked (r_trace st) @ step_files ss
       \<and> (dry \<longrightarrow> r_fs st' = r_fs st)"
  using assms
proof (induction ss arbitrary: st)
  case Nil
  then show ?case by simp
next
  case (Cons s ss)
  show ?case
  proof (cases s)
    case (Mkdir cat)
    show ?thesis
    proof (cases dry)
      case True
      with Cons.prems(1) Mkdir have run: "run_steps w dry t ss st = Some (Inr st')" by simp
      from Cons.IH [OF run Cons.prems(2-4)] Mkdir show ?thesis by simp
    next
      case False
      then have d: "dry = False" by simp
      from Cons.prems(1) have "run_steps w False t (Mkdir cat # ss) st = Some (Inr st')"
        unfolding Mkdir d .
      then obtain fs1 where "run_steps w False t ss (st\<lparr>r_fs := fs1\<rparr>) = Some (Inr st')"
        by (rule run_steps_Mkdir_real)
      then have run: "run_steps w dry t ss (st\<lparr>r_fs := fs1\<rparr>) = Some (Inr st')"
        unfolding d .
      have "st_processed (r_stats st') = st_processed (r_stats (st\<lparr>r_fs := fs1\<rparr>))
       \<and> st_moved (r_stats st') = length (filter d_moved (r_trace st'))
       \<and> st_errors (r_stats st') = length (filter d_raised (r_trace st'))
       \<and> (\<forall>e\<in>set (r_trace st'). explains w dry t e)
       \<and> map asked (r_trace st') = map asked (r_trace (st\<lparr>r_fs := fs1\<rparr>)) @ step_files ss
       \<and> (dry \<longrightarrow> r_fs st' = r_fs (st\<lparr>r_fs := fs1\<rparr>))"
        by (rule Cons.IH [OF run]) (use Cons.prems(2-4) in simp_all)
      with False Mkdir show ?thesis by simp
    qed
  next
    case (File cat src name)
    from Cons.prems(1) have "run_steps w dry t (File cat src name # ss) st = Some (Inr st')"
      unfolding File .
    then obtain r where
      res: "resolve_destination (w_stat_raises w) (r_fs st) (joinpath t cat) name = Some r" and
      run: "run_steps w dry t ss
           (record_entry (entry_for w dry cat src name (r_fs st) (the_dest r))
              (fs_after w dry src (r_fs st) (the_dest r)) st) = Some (Inr st')"
      by (rule run_steps_File)
    let ?e = "entry_for w dry cat src name (r_fs st) (the_dest r)"
    let ?st1 = "record_entry ?e (fs_after w dry src (r_fs st) (the_dest r)) st"
    have a: "st_moved (r_stats ?st1) = length (filter d_moved (r_trace ?st1))"
      and b: "st_errors (r_stats ?st1) = length (filter d_raised (r_trace ?st1))"
      using Cons.prems(2,3) by (simp_all add: record_entry_simps)
    have c: "\<forall>e\<in>set (r_trace ?st1). explains w dry t e"
      using Cons.prems(4) explains_entry_for [OF res] by (simp add: record_entry_simps)
    have f: "dry \<longrightarrow> r_fs ?st1 = r_fs st"
      by (auto simp: record_entry_simps entry_for_dry)
    from Cons.IH [OF run a b c] f File show ?thesis
      by (simp add: record_entry_simps asked_def entry_for_simps)
  qed
qed

lemma step_files_append: "step_files (xs @ ys) = step_files xs @ step_files ys"
  by (induction xs rule: step_files.induct) simp_all

lemma step_files_map:
  "step_files (map (\<lambda>(src, name). File cat src name) files)
     = map (\<lambda>(src, name). (cat, src, name)) files"
  by (induction files) auto

lemma step_files_steps_of: "step_files (steps_of groups) = plan groups"
  by (induction groups) (auto simp: step_files_append step_files_map plan_def)

lemma plan_sources: "map snd (plan groups) = all_files groups"
  by (induction groups) (auto simp: plan_def all_files_def comp_def split_def)

lemma file_of_analyze_file: "fst (file_of (analyze_file w p)) = p"
  by (simp add: file_of_def analyze_file_def split: prod.splits)

lemma sources_of_groups:
  assumes "merge_run namer (file_data_of w fs source) = Inr ms"
  shows "mset (map (fst \<circ> snd) (plan (merged ms))) = mset (discovered w fs source)"
proof -
  have "map (fst \<circ> snd) (plan (merged ms)) = map fst (map snd (plan (merged ms)))"
    by simp
  also have "\<dots> = map fst (all_files (merged ms))" by (simp only: plan_sources)
  finally have e: "map (fst \<circ> snd) (plan (merged ms)) = map fst (all_files (merged ms))" .
  have "mset (map fst (all_files (merged ms))) = mset (map fst (map file_of (file_data_of w fs source)))"
    using merge_run_invariant(4) [OF assms] by (metis mset_map)
  also have "map fst (map file_of (file_data_of w fs source)) = discovered w fs source"
    by (simp add: file_data_of_def comp_def file_of_analyze_file)
  finally show ?thesis by (simp add: e)
qed

lemma initial_state_simps:
  "r_trace (initial_state fs n) = []" "r_fs (initial_state fs n) = fs"
  "st_processed (r_stats (initial_state fs n)) = n"
  "st_moved (r_stats (initial_state fs n)) = 0"
  "st_errors (r_stats (initial_state fs n)) = 0"
  by (simp_all add: initial_state_def)

lemma organize_files_stats:
  assumes "organize_files w source target dry = Some (Inr st)"
  obtains fs0 ms where "start_fs w target dry = Inr fs0"
    and "merge_run (w_namer w) (file_data_of w fs0 source) = Inr ms"
    and "st_processed (r_stats st) = length (discovered w fs0 source)"
    and "st_moved (r_stats st) = length (filter d_moved (r_trace st))"
    and "st_errors (r_stats st) = length (filter d_raised (r_trace st))"
    and "\<forall>e\<in>set (r_trace st). explains w dry target e"
    and "map asked (r_trace st) = plan (merged ms)"
    and "dry \<longrightarrow> r_fs st = fs0"
proof -
  from assms obtain fs0 ms where s: "start_fs w target dry = Inr fs0"
    and ms: "merge_run (w_namer w) (file_data_of w fs0 source) = Inr ms"
    and run: "run_steps w dry target (steps_of (merged ms))
           (initial_state fs0 (length (discovered w fs0 source))) = Some (Inr st)"
    by (rule organize_files_Inr)
  let ?st0 = "initial_state fs0 (length (discovered w fs0 source))"
  have "st_processed (r_stats st) = st_processed (r_stats ?st0)
       \<and> st_moved (r_stats st) = length (filter d_moved (r_trace st))
       \<and> st_errors (r_stats st) = length (filter d_raised (r_trace st))
       \<and> (\<forall>e\<in>set (r_trace st). explains w dry target e)
       \<and> map asked (r_trace st) = map asked (r_trace ?st0) @ step_files (steps_of (merged ms))
       \<and> (dry \<longrightarrow> r_fs st = r_fs ?st0)"
    by (rule run_steps_stats [OF run]) (simp_all add: initial_state_simps)
  then show thesis
    using s ms by (intro that [of fs0 ms]) (simp_all add: initial_state_simps step_files_steps_of)
qed

lemma length_filter_cover:
  "\<forall>x\<in>set xs. P x \<or> Q x \<Longrightarrow> length xs \<le> length (filter P xs) + length (filter Q xs)"
  by (induction xs) auto

lemma explains_dest:
  assumes "explains w dry t e"
  shows "d_dest e = None \<longleftrightarrow>
           resolve_destination (w_stat_raises w) (d_seen e) (joinpath t (d_category e)) (d_name e)
             = Some (Inl PermissionError)"
    and "d_dest e = Some d \<longleftrightarrow>
           resolve_destination (w_stat_raises w) (d_seen e) (joinpath t (d_category e)) (d_name e)
             = Some (Inr d)"
proof -
  from assms obtain r where
    r: "resolve_destination (w_stat_raises w) (d_seen e) (joinpath t (d_category e)) (d_name e) = Some r"
    and d: "d_dest e = the_dest r" by (auto simp: explains_def)
  show "d_dest e = None \<longleftrightarrow>
           resolve_destination (w_stat_raises w) (d_seen e) (joinpath t (d_category e)) (d_name e)
             = Some (Inl PermissionError)"
  proof (cases r)
    case (Inl x)
    with r resolve_destination_error have "x = PermissionError" by blast
    with r d Inl show ?thesis by (simp add: the_dest_def)
  next
    case (Inr y)
    with r d show ?thesis by (simp add: the_dest_def)
  qed
  show "d_dest e = Some d \<longleftrightarrow>
           resolve_destination (w_stat_raises w) (d_seen e) (joinpath t (d_category e)) (d_name e)
             = Some (Inr d)"
    using r d by (cases r) (auto simp: the_dest_def)
qed

lemma explains_flags:
  assumes "explains w dry t e"
  shows "d_moved e \<longleftrightarrow>
           \<not> dry \<and> (\<exists>d. d_dest e = Some d
                          \<and> fst (shutil_move (w_mover w) (d_seen e) (d_source e) d))"
    and "d_raised e \<longleftrightarrow>
           d_dest e = None \<or> (\<not> dry \<and> \<not> d_moved e)
           \<or> (\<exists>d. d_dest e = Some d
                  \<and> w_print_raises w dry (path_name (d_source e)) (d_category e) (path_name d))"
proof -
  from assms
  have e: "e = entry_for w dry (d_category e) (d_source e) (d_name e) (d_seen e) (d_dest e)"
    by (simp add: explains_def)
  show "d_moved e \<longleftrightarrow>
           \<not> dry \<and> (\<exists>d. d_dest e = Some d
                          \<and> fst (shutil_move (w_mover w) (d_seen e) (d_source e) d))"
    by (subst e) (auto simp: entry_for_def split: option.splits)
  show "d_raised e \<longleftrightarrow>
           d_dest e = None \<or> (\<not> dry \<and> \<not> d_moved e)
           \<or> (\<exists>d. d_dest e = Some d
                  \<and> w_print_raises w dry (path_name (d_source e)) (d_category e) (path_name d))"
    by (subst e, subst (2) e) (auto simp: entry_for_def split: option.splits)
qed

section \<open>The file system during a run\<close>

lemma make_dirs_effect:
  "make_dirs R fs cur cs = Inr fs' \<Longrightarrow> fs_files fs' = fs_files fs \<and> fs_dirs fs \<subseteq> fs_dirs fs'"
proof (induction cs arbitrary: fs cur)
  case Nil
  then show ?case by simp
next
  case (Cons c cs)
  show ?case
  proof (cases "c = ''.''")
    case True
    with Cons.prems have "make_dirs R fs cur cs = Inr fs'" by simp
    then show ?thesis by (rule Cons.IH)
  next
    case dot: False
    show ?thesis
    proof (cases "c = ''..''")
      case True
      with Cons.prems dot have "make_dirs R fs (butlast cur) cs = Inr fs'" by simp
      then show ?thesis by (rule Cons.IH)
    next
      case dd: False
      show ?thesis
      proof (cases "cur @ [c] \<in> fs_files fs")
        case True
        with Cons.prems dot dd show ?thesis by simp
      next
        case nf: False
        show ?thesis
        proof (cases "cur @ [c] \<in> fs_dirs fs")
          case True
          with Cons.prems dot dd nf have "make_dirs R fs (cur @ [c]) cs = Inr fs'" by simp
          then show ?thesis by (rule Cons.IH)
        next
          case nd: False
          show ?thesis
          proof (cases "cur @ [c] \<in> R")
            case True
            with Cons.prems dot dd nf nd show ?thesis by simp
          next
            case False
            with Cons.prems dot dd nf nd
            have "make_dirs R (fs\<lparr>fs_dirs := insert (cur @ [c]) (fs_dirs fs)\<rparr>) (cur @ [c]) cs = Inr fs'"
              by simp
            from Cons.IH [OF this] show ?thesis by auto
          qed
        qed
      qed
    qed
  qed
qed

lemma mkdir_effect:
  "mkdir R fs p = Inr fs' \<Longrightarrow> fs_files fs' = fs_files fs \<and> fs_dirs fs \<subseteq> fs_dirs fs'"
  unfolding mkdir_def by (rule make_dirs_effect)


lemma file_at_lookup: "file_at fs p \<longleftrightarrow> (\<exists>q. lookup fs p = Some q \<and> q \<in> fs_files fs)"
  by (cases "lookup fs p") (simp_all add: file_at_def)

lemma new_entry_Some:
  assumes "new_entry fs dst = Some q"
  obtains name up d where "parts dst = up @ [name]" "name \<noteq> ''.''" "name \<noteq> ''..''"
    "walk fs [] up = Some d" "d \<in> fs_dirs fs" "q = d @ [name]"
proof (cases "rev (parts dst)")
  case Nil
  with assms show thesis by (simp add: new_entry_def)
next
  case (Cons name rup)
  then have p: "parts dst = rev rup @ [name]" by (metis rev.simps(2) rev_rev_ident)
  show thesis
  proof (cases "name = ''.'' \<or> name = ''..''")
    case True
    with assms Cons show thesis by (simp add: new_entry_def)
  next
    case n: False
    show thesis
    proof (cases "walk fs [] (rev rup)")
      case None
      with assms Cons n show thesis by (simp add: new_entry_def)
    next
      case (Some d)
      show thesis
      proof (cases "d \<in> fs_dirs fs")
        case False
        with assms Cons n Some show thesis by (simp add: new_entry_def)
      next
        case True
        with assms Cons n Some have "q = d @ [name]" by (simp add: new_entry_def)
        with p n Some True show thesis by (intro that [of "rev rup" name d]) simp_all
      qed
    qed
  qed
qed

lemma new_entry_intro:
  assumes "parts dst = up @ [name]" "name \<noteq> ''.''" "name \<noteq> ''..''"
    "walk fs [] up = Some d" "d \<in> fs_dirs fs"
  shows "new_entry fs dst = Some (d @ [name])"
  using assms by (simp add: new_entry_def)

lemma new_entry_lookup:
  assumes "new_entry fs dst = Some q"
  shows "lookup fs dst = (if q \<in> fs_files fs \<or> q \<in> fs_dirs fs then Some q else None)"
proof -
  from assms obtain name up d where "parts dst = up @ [name]" "name \<noteq> ''.''" "name \<noteq> ''..''"
    "walk fs [] up = Some d" "d \<in> fs_dirs fs" "q = d @ [name]"
    by (rule new_entry_Some)
  then show ?thesis by (simp add: lookup_def walk_append)
qed

lemma new_entry_keeps:
  assumes "new_entry fs dst = Some q" and "fs_dirs fs' = fs_dirs fs"
  shows "new_entry fs' dst = Some q"
proof -
  from assms(1) obtain name up d where p: "parts dst = up @ [name]"
    and n: "name \<noteq> ''.''" "name \<noteq> ''..''"
    and w: "walk fs [] up = Some d" and d: "d \<in> fs_dirs fs" and q: "q = d @ [name]"
    by (rule new_entry_Some)
  have "walk fs' [] up = Some d"
    by (rule walk_mono [OF w]) (use assms(2) d in simp_all)
  with p n d q assms(2) show ?thesis by (simp add: new_entry_intro)
qed

lemma shutil_move_cases:
  assumes "shutil_move mover fs src dst = (ok, fs')"
  obtains (unchanged) "\<not> ok" "fs' = fs"
  | (moved) s q where "ok" "lookup fs src = Some s" "s \<in> fs_files fs" "new_entry fs dst = Some q"
      "fs' = fs\<lparr>fs_files := insert q (fs_files fs - {s})\<rparr>"
  | (copied) s q where "\<not> ok" "lookup fs src = Some s" "s \<in> fs_files fs"
      "new_entry fs dst = Some q" "fs' = fs\<lparr>fs_files := insert q (fs_files fs)\<rparr>"
proof (cases "lookup fs src")
  case None
  with assms have "\<not> ok" "fs' = fs" by (simp_all add: shutil_move_def)
  then show thesis by (rule unchanged)
next
  case (Some s)
  show thesis
  proof (cases "s \<in> fs_files fs")
    case False
    with assms Some have "\<not> ok" "fs' = fs" by (simp_all add: shutil_move_def)
    then show thesis by (rule unchanged)
  next
    case s: True
    show thesis
    proof (cases "new_entry fs dst")
      case None
      with assms Some s have "\<not> ok" "fs' = fs" by (simp_all add: shutil_move_def)
      then show thesis by (rule unchanged)
    next
      case q: (Some q)
      show thesis
      proof (cases "mover src dst")
        case Completes
        with assms Some s q have "ok" "fs' = fs\<lparr>fs_files := insert q (fs_files fs - {s})\<rparr>"
          by (simp_all add: shutil_move_def)
        with Some s q show thesis by (intro moved [of s q])
      next
        case Raises
        with assms Some s q have "\<not> ok" "fs' = fs" by (simp_all add: shutil_move_def)
        then show thesis by (rule unchanged)
      next
        case RaisesAfterCopy
        with assms Some s q have "\<not> ok" "fs' = fs\<lparr>fs_files := insert q (fs_files fs)\<rparr>"
          by (simp_all add: shutil_move_def)
        with Some s q show thesis by (intro copied [of s q])
      qed
    qed
  qed
qed

text \<open>The effect of the iteration for one file on the file system.\<close>

lemma fs_after_effect:
  assumes "fs' = fs_after w dry src fs dest"
    and "\<forall>d. dest = Some d \<longrightarrow> \<not> present fs d"
  shows "fs_dirs fs' = fs_dirs fs"
    and "\<forall>x\<in>fs_files fs. lookup fs src \<noteq> Some x \<longrightarrow> x \<in> fs_files fs'"
    and "d_moved (entry_for w dry c src name fs dest) \<longrightarrow>
           (\<exists>d q. dest = Some d \<and> lookup fs' d = Some q \<and> q \<in> fs_files fs' \<and> q \<notin> fs_files fs)"
proof -
  show "fs_dirs fs' = fs_dirs fs"
  proof (cases dest)
    case None
    with assms(1) show ?thesis by (simp add: fs_after_def)
  next
    case (Some d')
    obtain ok f where m: "shutil_move (w_mover w) fs src d' = (ok, f)"
      by (cases "shutil_move (w_mover w) fs src d'")
    from m show ?thesis
      by (rule shutil_move_cases) (use assms(1) Some m in \<open>auto simp: fs_after_def\<close>)
  qed
  show "\<forall>x\<in>fs_files fs. lookup fs src \<noteq> Some x \<longrightarrow> x \<in> fs_files fs'"
  proof (cases dest)
    case None
    with assms(1) show ?thesis by (simp add: fs_after_def)
  next
    case (Some d')
    obtain ok f where m: "shutil_move (w_mover w) fs src d' = (ok, f)"
      by (cases "shutil_move (w_mover w) fs src d'")
    from m show ?thesis
      by (rule shutil_move_cases) (use assms(1) Some m in \<open>auto simp: fs_after_def\<close>)
  qed
  show "d_moved (entry_for w dry c src name fs dest) \<longrightarrow>
           (\<exists>d q. dest = Some d \<and> lookup fs' d = Some q \<and> q \<in> fs_files fs' \<and> q \<notin> fs_files fs)"
  proof
    assume mv: "d_moved (entry_for w dry c src name fs dest)"
    then obtain d' where dest: "dest = Some d'" and nd: "\<not> dry"
      and ok: "fst (shutil_move (w_mover w) fs src d')"
      by (auto simp: entry_for_def split: option.splits)
    obtain f where m: "shutil_move (w_mover w) fs src d' = (True, f)"
      using ok by (cases "shutil_move (w_mover w) fs src d'") auto
    from assms(1) dest nd m have f: "fs' = f" by (simp add: fs_after_def)
    from m show "\<exists>d q. dest = Some d \<and> lookup fs' d = Some q \<and> q \<in> fs_files fs' \<and> q \<notin> fs_files fs"
    proof (cases rule: shutil_move_cases)
      case unchanged
      then show ?thesis by simp
    next
      case (copied s q)
      then show ?thesis by simp
    next
      case (moved s q)
      from assms(2) dest have np: "lookup fs d' = None" by (simp add: present_def)
      with new_entry_lookup [OF moved(4)] have qn: "q \<notin> fs_files fs" "q \<notin> fs_dirs fs"
        by (auto split: if_splits)
      have ne: "new_entry fs' d' = Some q"
        by (rule new_entry_keeps [OF moved(4)]) (simp add: f moved(5))
      have "lookup fs' d' = Some q"
        using new_entry_lookup [OF ne] by (simp add: f moved(5))
      with dest qn show ?thesis by (auto simp: f moved(5))
    qed
  qed
qed

section \<open>Files that were moved stay where they are\<close>








lemma explains_least_free:
  assumes "explains w dry t e" and "d_dest e = Some d"
  shows "least_free (d_seen e) (joinpath t (d_category e)) (d_name e) d"
  using explains_dest(2) [OF assms(1), of d] assms(2) resolve_destination_result by blast


section \<open>Resolved paths on a well-formed file system\<close>






lemma seg_plain: "c \<noteq> ''..'' \<Longrightarrow> \<forall>x\<in>set (seg c). x \<noteq> ''.'' \<and> x \<noteq> ''..''"
  by (simp add: seg_def)

lemma chain_append: "chain cur (xs @ ys) = chain cur xs @ chain (cur @ xs) ys"
  by (induction xs arbitrary: cur) simp_all

lemma chain_prefix: "x \<in> set (chain cur cs) \<Longrightarrow> prefix cur x"
proof (induction cs arbitrary: cur)
  case Nil
  then show ?case by simp
next
  case (Cons c cs)
  then show ?case by (auto dest: append_prefixD)
qed

lemma chain_last: "cs \<noteq> [] \<Longrightarrow> cur @ cs \<in> set (chain cur cs)"
proof (induction cs arbitrary: cur)
  case Nil
  then show ?case by simp
next
  case (Cons c cs)
  show ?case
  proof (cases "cs = []")
    case True
    then show ?thesis by simp
  next
    case False
    from Cons.IH [OF this, of "cur @ [c]"] show ?thesis by simp
  qed
qed


section \<open>A dry run and a real run, step by step\<close>








lemma fs_after_files:
  assumes "fs' = fs_after w dry src fs dest"
  shows "\<forall>x\<in>fs_files fs'. x \<in> fs_files fs \<or> (\<exists>d. dest = Some d \<and> new_entry fs d = Some x)"
proof (cases dest)
  case None
  with assms show ?thesis by (simp add: fs_after_def)
next
  case (Some d')
  obtain ok f where m: "shutil_move (w_mover w) fs src d' = (ok, f)"
    by (cases "shutil_move (w_mover w) fs src d'")
  from m show ?thesis
    by (rule shutil_move_cases) (use assms Some m in \<open>auto simp: fs_after_def\<close>)
qed




lemma set_dests: "set (dests tr) = {d. \<exists>e\<in>set tr. d_dest e = Some d}"
  by (induction tr) (auto simp: dests_def split: option.splits)



section \<open>Names and categories have no separator\<close>

lemma sanitize_no_sep: "CHR ''/'' \<notin> set (sanitize s)"
  by (simp add: sanitize_def illegal_chars_def)

lemma path_name_no_sep: "CHR ''/'' \<notin> set (path_name p)"
proof -
  have "\<forall>c\<in>set (takeWhile (\<lambda>c. c \<noteq> CHR ''/'') (rev p)). c \<noteq> CHR ''/''"
    by (metis (mono_tags, lifting) set_takeWhileD)
  then show ?thesis by (auto simp: path_name_def)
qed

lemma analyze_filename_no_sep:
  assumes "CHR ''/'' \<notin> set filename" "analyze_filename resp filename = (c, n, k)"
  shows "CHR ''/'' \<notin> set c" "CHR ''/'' \<notin> set n"
proof -
  obtain stem ext where se: "splitext filename = (stem, ext)" by (cases "splitext filename")
  from splitext_chars(2) [of filename] se assms(1) have ext: "CHR ''/'' \<notin> set ext" by auto
  show "CHR ''/'' \<notin> set c"
  proof (cases resp)
    case Raised
    with assms(2) se have "c = ''Misc''" by (simp add: analyze_filename_def)
    then show ?thesis by simp
  next
    case (Content result)
    with assms(2) se have "c = sanitize (case field_match ''CATEGORY:'' result of
                                           Some g \<Rightarrow> strip g | None \<Rightarrow> ''Misc'')"
      by (simp add: analyze_filename_def Let_def)
    then show ?thesis by (simp add: sanitize_no_sep)
  qed
  show "CHR ''/'' \<notin> set n"
  proof (cases resp)
    case Raised
    with assms(2) se have "n = filename" by (simp add: analyze_filename_def)
    with assms(1) show ?thesis by simp
  next
    case (Content result)
    with assms(2) se have "n = sanitize (case field_match ''NEWNAME:'' result of
                                           Some g \<Rightarrow> strip g | None \<Rightarrow> stem) @ ext"
      by (simp add: analyze_filename_def Let_def)
    with ext show ?thesis by (simp add: sanitize_no_sep)
  qed
qed

lemma analyze_file_no_sep:
  "CHR ''/'' \<notin> set (cat_of (analyze_file w p))"
  "CHR ''/'' \<notin> set (snd (file_of (analyze_file w p)))"
proof -
  obtain c n k where a: "analyze_filename (w_llm w p) (path_name p) = (c, n, k)"
    by (cases "analyze_filename (w_llm w p) (path_name p)")
  from analyze_filename_no_sep [OF path_name_no_sep a] a
  show "CHR ''/'' \<notin> set (cat_of (analyze_file w p))"
    "CHR ''/'' \<notin> set (snd (file_of (analyze_file w p)))"
    by (simp_all add: analyze_file_def cat_of_def file_of_def)
qed

lemma get_merged_category_name_no_sep:
  assumes "get_merged_category_name namer cl = Inr n" "\<forall>c\<in>set cl. CHR ''/'' \<notin> set c"
  shows "CHR ''/'' \<notin> set n"
proof (cases "length cl = 1")
  case True
  then obtain c where "cl = [c]" by (cases cl) auto
  with assms show ?thesis by (simp add: get_merged_category_name_def)
next
  case False
  show ?thesis
  proof (cases "namer cl")
    case (Content m)
    with assms(1) False have "n = sanitize (strip m)"
      by (simp add: get_merged_category_name_def)
    then show ?thesis by (simp add: sanitize_no_sep)
  next
    case Raised
    with assms False show ?thesis
      by (cases cl) (auto simp: get_merged_category_name_def)
  qed
qed

lemma merge_run_keys_no_sep:
  assumes "merge_run namer fd = Inr ms" "\<forall>r\<in>set fd. CHR ''/'' \<notin> set (cat_of r)"
    and "n \<in> fst ` set (merged ms)"
  shows "CHR ''/'' \<notin> set n"
proof -
  from assms(3) merge_run_groups(2) [OF assms(1)] obtain cl where cl: "(n, cl) \<in> set (clusters ms)"
    by auto
  then have "set cl \<subseteq> set (concat (map snd (clusters ms)))" by force
  with merge_run_invariant(2) [OF assms(1)] have "set cl \<subseteq> cat_of ` set fd" by simp
  with assms(2) have "\<forall>c\<in>set cl. CHR ''/'' \<notin> set c" by auto
  with merge_run_clusters_ordered(1) [OF assms(1) cl] show ?thesis
    by (rule get_merged_category_name_no_sep)
qed

lemma plan_members:
  "(c, s, n) \<in> set (plan groups) \<Longrightarrow> c \<in> fst ` set groups \<and> (s, n) \<in> set (all_files groups)"
  by (induction groups) (auto simp: plan_def all_files_def)

lemma plan_no_sep:
  assumes "merge_run (w_namer w) (file_data_of w fs source) = Inr ms"
    and "(c, s, n) \<in> set (plan (merged ms))"
  shows "CHR ''/'' \<notin> set c" "CHR ''/'' \<notin> set n"
proof -
  let ?fd = "file_data_of w fs source"
  from plan_members [OF assms(2)] have c: "c \<in> fst ` set (merged ms)"
    and f: "(s, n) \<in> set (all_files (merged ms))" by simp_all
  have raw: "\<forall>r\<in>set ?fd. CHR ''/'' \<notin> set (cat_of r)"
    by (auto simp: file_data_of_def analyze_file_no_sep)
  from merge_run_keys_no_sep [OF assms(1) raw c] show "CHR ''/'' \<notin> set c" .
  from f mset_eq_setD [OF merge_run_invariant(4) [OF assms(1)]]
  have "(s, n) \<in> file_of ` set ?fd" by simp
  then obtain p where "(s, n) = file_of (analyze_file w p)"
    by (auto simp: file_data_of_def)
  then have "n = snd (file_of (analyze_file w p))" by (metis snd_conv)
  then show "CHR ''/'' \<notin> set n" by (simp add: analyze_file_no_sep(2))
qed

lemma step_files_mem: "File c s n \<in> set ss \<longleftrightarrow> (c, s, n) \<in> set (step_files ss)"
  by (induction ss rule: step_files.induct) auto

lemma steps_of_Mkdir:
  assumes "Mkdir cat \<in> set (steps_of groups)" and "\<forall>(n, files)\<in>set groups. files \<noteq> []"
  shows "\<exists>src name. File cat src name \<in> set (steps_of groups)"
  using assms
proof (induction groups)
  case Nil
  then show ?case by simp
next
  case (Cons g groups)
  obtain c files where g: "g = (c, files)" by (cases g)
  show ?case
  proof (cases "cat = c")
    case True
    from Cons.prems(2) g obtain f fs where "files = f # fs" by (cases files) auto
    with True g show ?thesis by (cases f) auto
  next
    case False
    with Cons.prems g have "Mkdir cat \<in> set (steps_of groups)" by auto
    from Cons.IH [OF this] Cons.prems(2) g show ?thesis by auto
  qed
qed

lemma steps_no_sep:
  assumes "merge_run (w_namer w) (file_data_of w fs source) = Inr ms"
    and "s \<in> set (steps_of (merged ms))"
  shows "case s of Mkdir c \<Rightarrow> CHR ''/'' \<notin> set c
         | File c src n \<Rightarrow> CHR ''/'' \<notin> set c \<and> CHR ''/'' \<notin> set n"
proof (cases s)
  case (File c src n)
  with assms(2) have "(c, src, n) \<in> set (plan (merged ms))"
    by (simp add: step_files_mem step_files_steps_of)
  from plan_no_sep [OF assms(1) this] File show ?thesis by simp
next
  case (Mkdir c)
  with assms(2) steps_of_Mkdir [OF _ merge_run_nonempty [OF assms(1)]]
  obtain src n where "File c src n \<in> set (steps_of (merged ms))" by blast
  then have "(c, src, n) \<in> set (plan (merged ms))"
    by (simp add: step_files_mem step_files_steps_of)
  from plan_no_sep(1) [OF assms(1) this] Mkdir show ?thesis by simp
qed

section \<open>A run on a finite file system returns\<close>

lemma make_dirs_finite:
  "make_dirs R fs cur cs = Inr fs' \<Longrightarrow> finite (fs_dirs fs) \<Longrightarrow> finite (fs_dirs fs')"
proof (induction cs arbitrary: fs cur)
  case Nil
  then show ?case by simp
next
  case (Cons c cs)
  show ?case
  proof (cases "c = ''.''")
    case True
    with Cons.prems have "make_dirs R fs cur cs = Inr fs'" by simp
    from Cons.IH [OF this Cons.prems(2)] show ?thesis .
  next
    case dot: False
    show ?thesis
    proof (cases "c = ''..''")
      case True
      with Cons.prems dot have "make_dirs R fs (butlast cur) cs = Inr fs'" by simp
      from Cons.IH [OF this Cons.prems(2)] show ?thesis .
    next
      case dd: False
      show ?thesis
      proof (cases "cur @ [c] \<in> fs_files fs")
        case True
        with Cons.prems dot dd show ?thesis by simp
      next
        case nf: False
        show ?thesis
        proof (cases "cur @ [c] \<in> fs_dirs fs")
          case True
          with Cons.prems dot dd nf have "make_dirs R fs (cur @ [c]) cs = Inr fs'" by simp
          from Cons.IH [OF this Cons.prems(2)] show ?thesis .
        next
          case nd: False
          show ?thesis
          proof (cases "cur @ [c] \<in> R")
            case True
            with Cons.prems dot dd nf nd show ?thesis by simp
          next
            case False
            with Cons.prems dot dd nf nd
            have "make_dirs R (fs\<lparr>fs_dirs := insert (cur @ [c]) (fs_dirs fs)\<rparr>) (cur @ [c]) cs = Inr fs'"
              by simp
            from Cons.IH [OF this] Cons.prems(2) show ?thesis by simp
          qed
        qed
      qed
    qed
  qed
qed

lemma start_fs_finite:
  assumes "start_fs w t dry = Inr fs0" "finite (fs_files (w_fs w))" "finite (fs_dirs (w_fs w))"
  shows "finite (fs_files fs0)" "finite (fs_dirs fs0)"
proof -
  show "finite (fs_files fs0)"
    using assms(1,2) mkdir_effect [of "w_mkdir_refused w" "w_fs w" t fs0]
    by (cases dry) (auto simp: start_fs_def)
  show "finite (fs_dirs fs0)"
    using assms(1,3) make_dirs_finite [of "w_mkdir_refused w" "w_fs w" "[]" "parts t" fs0]
    by (cases dry) (auto simp: start_fs_def mkdir_def)
qed

lemma fs_after_finite:
  assumes "finite (fs_files fs)" "finite (fs_dirs fs)"
  shows "finite (fs_files (fs_after w dry src fs dest))"
    and "finite (fs_dirs (fs_after w dry src fs dest))"
proof -
  have "fs_files (fs_after w dry src fs dest) \<subseteq> fs_files fs \<union> {x. \<exists>d. dest = Some d \<and> new_entry fs d = Some x}"
    using fs_after_files [OF refl, of w dry src fs dest] by auto
  moreover have "finite {x. \<exists>d. dest = Some d \<and> new_entry fs d = Some x}"
  proof (cases dest)
    case None
    then show ?thesis by simp
  next
    case (Some d)
    have "{x. \<exists>d. dest = Some d \<and> new_entry fs d = Some x} \<subseteq> {x. new_entry fs d = Some x}"
      using Some by auto
    moreover have "finite {x. new_entry fs d = Some x}"
      by (cases "new_entry fs d") simp_all
    ultimately show ?thesis by (rule finite_subset)
  qed
  ultimately show "finite (fs_files (fs_after w dry src fs dest))"
    using assms(1) by (meson finite_UnI finite_subset)
  show "finite (fs_dirs (fs_after w dry src fs dest))"
  proof (cases dest)
    case None
    with assms(2) show ?thesis by (simp add: fs_after_def)
  next
    case (Some d)
    obtain ok f where m: "shutil_move (w_mover w) fs src d = (ok, f)"
      by (cases "shutil_move (w_mover w) fs src d")
    from m have "fs_dirs f = fs_dirs fs"
      by (rule shutil_move_cases) simp_all
    with Some m assms(2) show ?thesis by (simp add: fs_after_def)
  qed
qed

lemma run_steps_terminates:
  assumes "finite (fs_files (r_fs st))" "finite (fs_dirs (r_fs st))"
    and "\<forall>s\<in>set ss. case s of Mkdir c \<Rightarrow> CHR ''/'' \<notin> set c
         | File c src n \<Rightarrow> CHR ''/'' \<notin> set c \<and> CHR ''/'' \<notin> set n"
  shows "\<exists>r. run_steps w dry t ss st = Some r"
  using assms
proof (induction ss arbitrary: st)
  case Nil
  then show ?case by simp
next
  case (Cons s ss)
  from Cons.prems(3) have tail: "\<forall>s\<in>set ss. case s of Mkdir c \<Rightarrow> CHR ''/'' \<notin> set c
         | File c src n \<Rightarrow> CHR ''/'' \<notin> set c \<and> CHR ''/'' \<notin> set n" by simp
  show ?case
  proof (cases s)
    case (Mkdir cat)
    show ?thesis
    proof (cases dry)
      case True
      with Cons.IH [OF Cons.prems(1,2) tail] Mkdir show ?thesis by simp
    next
      case False
      then have d: "dry = False" by simp
      show ?thesis
      proof (cases "mkdir (w_mkdir_refused w) (r_fs st) (joinpath t cat)")
        case (Inl e)
        with Mkdir d show ?thesis by simp
      next
        case (Inr fs1)
        from mkdir_effect [OF Inr] Cons.prems(1) have f: "finite (fs_files fs1)" by simp
        from make_dirs_finite [OF Inr [unfolded mkdir_def] Cons.prems(2)]
        have g: "finite (fs_dirs fs1)" .
        have "\<exists>r. run_steps w dry t ss (st\<lparr>r_fs := fs1\<rparr>) = Some r"
          by (rule Cons.IH) (use f g tail in simp_all)
        with Inr Mkdir d show ?thesis by simp
      qed
    qed
  next
    case (File cat src name)
    with Cons.prems(3) have n: "CHR ''/'' \<notin> set name" by simp
    from resolve_destination_terminates [OF Cons.prems(1,2) n] obtain r where
      r: "resolve_destination (w_stat_raises w) (r_fs st) (joinpath t cat) name = Some r"
      by blast
    let ?st1 = "record_entry (entry_for w dry cat src name (r_fs st) (the_dest r))
                  (fs_after w dry src (r_fs st) (the_dest r)) st"
    have "\<exists>r. run_steps w dry t ss ?st1 = Some r"
      by (rule Cons.IH)
         (use fs_after_finite [OF Cons.prems(1,2)] tail in \<open>simp_all add: record_entry_simps\<close>)
    with r File show ?thesis by (simp add: organize_one_eq)
  qed
qed

lemma organize_files_terminates:
  assumes "finite (fs_files (w_fs w))" "finite (fs_dirs (w_fs w))"
  shows "\<exists>r. organize_files w source target dry = Some r"
proof (cases "start_fs w target dry")
  case (Inl e)
  then show ?thesis by (simp add: organize_files_eq)
next
  case (Inr fs0)
  note fin = start_fs_finite [OF Inr assms]
  show ?thesis
  proof (cases "\<exists>p\<in>set (w_rglob w source). p \<in> w_stat_raises w")
    case True
    with Inr show ?thesis by (simp add: organize_files_eq)
  next
    case False
    show ?thesis
    proof (cases "merge_run (w_namer w) (file_data_of w fs0 source)")
      case (Inl e)
      with Inr False show ?thesis by (simp add: organize_files_eq)
    next
      case ms: (Inr ms)
      have "\<exists>r. run_steps w dry target (steps_of (merged ms))
                  (initial_state fs0 (length (discovered w fs0 source))) = Some r"
        by (rule run_steps_terminates)
           (use fin steps_no_sep [OF ms] in \<open>simp_all add: initial_state_simps\<close>)
      with Inr False ms show ?thesis by (simp add: organize_files_eq)
    qed
  qed
qed

section \<open>A dry run and the real run that follows it\<close>




section \<open>What a run records\<close>

lemma explains_moved_file:
  assumes "explains w dry t e" "d_moved e" "d_dest e = Some d"
  shows "file_at (snd (shutil_move (w_mover w) (d_seen e) (d_source e) d)) d"
proof -
  from assms(1)
  have e: "e = entry_for w dry (d_category e) (d_source e) (d_name e) (d_seen e) (d_dest e)"
    by (simp add: explains_def)
  from assms(2) explains_flags(1) [OF assms(1)] have nd: "\<not> dry" by simp
  have np: "\<forall>d'. d_dest e = Some d' \<longrightarrow> \<not> present (d_seen e) d'"
    using explains_least_free [OF assms(1)] by (auto simp: least_free_def)
  have m: "d_moved (entry_for w dry (d_category e) (d_source e) (d_name e) (d_seen e) (d_dest e))"
    using assms(2) e by simp
  from fs_after_effect(3) [OF refl np] m
  obtain d' q where "d_dest e = Some d'"
    "lookup (fs_after w dry (d_source e) (d_seen e) (d_dest e)) d' = Some q"
    "q \<in> fs_files (fs_after w dry (d_source e) (d_seen e) (d_dest e))" by blast
  with assms(3) nd show ?thesis by (auto simp: fs_after_def file_at_lookup)
qed

lemma organize_files_statistics:
  assumes "organize_files w source_path target_path dry_run = Some (Inr st)"
  shows "(\<exists>fs0. start_fs w target_path dry_run = Inr fs0
            \<and> st_processed (r_stats st) = length (discovered w fs0 source_path)
            \<and> mset (map d_source (r_trace st)) = mset (discovered w fs0 source_path))
       \<and> st_processed (r_stats st) = length (r_trace st)
       \<and> st_moved (r_stats st) = length (filter d_moved (r_trace st))
       \<and> st_errors (r_stats st) = length (filter d_raised (r_trace st))
       \<and> (\<forall>e\<in>set (r_trace st).
            (d_dest e = None \<longleftrightarrow>
               resolve_destination (w_stat_raises w) (d_seen e)
                 (joinpath target_path (d_category e)) (d_name e) = Some (Inl PermissionError))
          \<and> (\<forall>d. d_dest e = Some d \<longleftrightarrow>
               resolve_destination (w_stat_raises w) (d_seen e)
                 (joinpath target_path (d_category e)) (d_name e) = Some (Inr d))
          \<and> (d_moved e \<longleftrightarrow>
               \<not> dry_run \<and> (\<exists>d. d_dest e = Some d
                          \<and> fst (shutil_move (w_mover w) (d_seen e) (d_source e) d)))
          \<and> (\<forall>d. d_moved e \<and> d_dest e = Some d \<longrightarrow>
               file_at (snd (shutil_move (w_mover w) (d_seen e) (d_source e) d)) d)
          \<and> (d_raised e \<longleftrightarrow>
               d_dest e = None \<or> (\<not> dry_run \<and> \<not> d_moved e)
               \<or> (\<exists>d. d_dest e = Some d
                      \<and> w_print_raises w dry_run (path_name (d_source e)) (d_category e)
                          (path_name d))))
       \<and> (dry_run \<longrightarrow> st_moved (r_stats st) = 0 \<and> r_fs st = w_fs w)
       \<and> (\<not> dry_run \<longrightarrow>
            st_processed (r_stats st) \<le> st_moved (r_stats st) + st_errors (r_stats st))"
proof -
  from assms obtain fs0 ms where s: "start_fs w target_path dry_run = Inr fs0"
    and ms: "merge_run (w_namer w) (file_data_of w fs0 source_path) = Inr ms"
    and p: "st_processed (r_stats st) = length (discovered w fs0 source_path)"
    and m: "st_moved (r_stats st) = length (filter d_moved (r_trace st))"
    and r: "st_errors (r_stats st) = length (filter d_raised (r_trace st))"
    and ex: "\<forall>e\<in>set (r_trace st). explains w dry_run target_path e"
    and pl: "map asked (r_trace st) = plan (merged ms)"
    and fs: "dry_run \<longrightarrow> r_fs st = fs0"
    by (rule organize_files_stats)
  have "map d_source (r_trace st) = map (fst \<circ> snd) (map asked (r_trace st))"
    by (simp add: asked_def comp_def)
  then have src: "mset (map d_source (r_trace st)) = mset (discovered w fs0 source_path)"
    unfolding pl using sources_of_groups [OF ms] by simp
  from src have "length (map d_source (r_trace st)) = length (discovered w fs0 source_path)"
    by (metis size_mset)
  with p have len: "st_processed (r_stats st) = length (r_trace st)" by simp
  have dry: "dry_run \<longrightarrow> st_moved (r_stats st) = 0 \<and> r_fs st = w_fs w"
  proof
    assume d: dry_run
    have "\<forall>e\<in>set (r_trace st). \<not> d_moved e"
      using ex explains_flags(1) d by blast
    then have "filter d_moved (r_trace st) = []" by (simp add: filter_empty_conv)
    with m fs s d show "st_moved (r_stats st) = 0 \<and> r_fs st = w_fs w"
      by (simp add: start_fs_def)
  qed
  have real: "\<not> dry_run \<longrightarrow>
            st_processed (r_stats st) \<le> st_moved (r_stats st) + st_errors (r_stats st)"
  proof
    assume d: "\<not> dry_run"
    have "\<forall>e\<in>set (r_trace st). d_moved e \<or> d_raised e"
      using ex explains_flags(2) d by blast
    from length_filter_cover [OF this] len m r
    show "st_processed (r_stats st) \<le> st_moved (r_stats st) + st_errors (r_stats st)"
      by simp
  qed
  have each: "\<forall>e\<in>set (r_trace st).
            (d_dest e = None \<longleftrightarrow>
               resolve_destination (w_stat_raises w) (d_seen e)
                 (joinpath target_path (d_category e)) (d_name e) = Some (Inl PermissionError))
          \<and> (\<forall>d. d_dest e = Some d \<longleftrightarrow>
               resolve_destination (w_stat_raises w) (d_seen e)
                 (joinpath target_path (d_category e)) (d_name e) = Some (Inr d))
          \<and> (d_moved e \<longleftrightarrow>
               \<not> dry_run \<and> (\<exists>d. d_dest e = Some d
                          \<and> fst (shutil_move (w_mover w) (d_seen e) (d_source e) d)))
          \<and> (\<forall>d. d_moved e \<and> d_dest e = Some d \<longrightarrow>
               file_at (snd (shutil_move (w_mover w) (d_seen e) (d_source e) d)) d)
          \<and> (d_raised e \<longleftrightarrow>
               d_dest e = None \<or> (\<not> dry_run \<and> \<not> d_moved e)
               \<or> (\<exists>d. d_dest e = Some d
                      \<and> w_print_raises w dry_run (path_name (d_source e)) (d_category e)
                          (path_name d)))"
  proof
    fix e assume "e \<in> set (r_trace st)"
    with ex have x: "explains w dry_run target_path e" by blast
    show "(d_dest e = None \<longleftrightarrow>
               resolve_destination (w_stat_raises w) (d_seen e)
                 (joinpath target_path (d_category e)) (d_name e) = Some (Inl PermissionError))
          \<and> (\<forall>d. d_dest e = Some d \<longleftrightarrow>
               resolve_destination (w_stat_raises w) (d_seen e)
                 (joinpath target_path (d_category e)) (d_name e) = Some (Inr d))
          \<and> (d_moved e \<longleftrightarrow>
               \<not> dry_run \<and> (\<exists>d. d_dest e = Some d
                          \<and> fst (shutil_move (w_mover w) (d_seen e) (d_source e) d)))
          \<and> (\<forall>d. d_moved e \<and> d_dest e = Some d \<longrightarrow>
               file_at (snd (shutil_move (w_mover w) (d_seen e) (d_source e) d)) d)
          \<and> (d_raised e \<longleftrightarrow>
               d_dest e = None \<or> (\<not> dry_run \<and> \<not> d_moved e)
               \<or> (\<exists>d. d_dest e = Some d
                      \<and> w_print_raises w dry_run (path_name (d_source e)) (d_category e)
                          (path_name d)))"
      using explains_dest [OF x] explains_flags [OF x] explains_moved_file [OF x] by blast
  qed
  from s p src len m r each dry real show ?thesis by blast
qed

section \<open>Evaluation of the concrete inputs\<close>

lemma scenario_profiles_equal:
  "category_keywords scenario_files = category_keywords scenario_files_renamed"
  by (simp add: category_keywords_def scenario_files_def scenario_files_renamed_def) blast

lemma collide_run: "merge_run collide_namer collide_files = Inr collide_state"
  by (simp add: merge_run_def category_keywords_def collide_files_def collide_state_def
      collide_namer_def similarity_def get_merged_category_name_def insert_commute
      sanitize_def strip_def is_space_def illegal_chars_def)

lemma scenario_run: "merge_run (\<lambda>_. Raised) scenario_files = Inr scenario_state"
  by (simp add: merge_run_def category_keywords_def scenario_files_def scenario_state_def
      similarity_def get_merged_category_name_def insert_commute)


lemma fault_run: "organize_files fault_world ''/in'' ''/out'' False = Some (Inr fault_state)"
  by code_simp





text \<open>
  A regular file at the place of the folder of a group: the dry run returns, and in the
  real run \<^verbatim>\<open>mkdir\<close> raises outside the \<^verbatim>\<open>try\<close> block.
\<close>

lemma folder_is_a_file:
  "decisions (organize_files blocked_world ''/in'' ''/out'' True)
     = Some [(''Misc'', Some ''/out/Misc/a.txt'')]
   \<and> organize_files blocked_world ''/in'' ''/out'' False = Some (Inl FileExistsError)"
  by code_simp

text \<open>
  The suggested name \<^verbatim>\<open>..\<close>: the path \<^verbatim>\<open>folder/..\<close> exists once the real run has created
  the folder, and does not exist for the dry run.
\<close>

lemma name_is_dotdot:
  "decisions (organize_files dotdot_world ''/in'' ''/out'' True)
     = Some [(''Documents'', Some ''/out/Documents/..'')]
   \<and> decisions (organize_files dotdot_world ''/in'' ''/out'' False)
     = Some [(''Documents'', Some ''/out/Documents/.._1'')]"
  by code_simp

text \<open>
  A move that raises. When nothing is left at the destination, the next file with the
  same suggested name resolves to the same destination; when a copy is left there, it
  resolves to the next free name. In both runs \<open>moved\<close> is \<open>1\<close> and \<open>errors\<close> is \<open>1\<close>.
\<close>

lemma failed_move_repeats_destination:
  "destinations (organize_files (draft_world_failing Raises) ''/in'' ''/out'' False)
     = Some [Some ''/out/Documents/draft.txt'', Some ''/out/Documents/draft.txt'']
   \<and> run_stats (organize_files (draft_world_failing Raises) ''/in'' ''/out'' False)
     = Some (Inr \<lparr>st_processed = 2, st_moved = 1, st_errors = 1\<rparr>)"
  by code_simp

lemma failed_move_leaves_copy:
  "destinations (organize_files (draft_world_failing RaisesAfterCopy) ''/in'' ''/out'' False)
     = Some [Some ''/out/Documents/draft.txt'', Some ''/out/Documents/draft_1.txt'']
   \<and> run_stats (organize_files (draft_world_failing RaisesAfterCopy) ''/in'' ''/out'' False)
     = Some (Inr \<lparr>st_processed = 2, st_moved = 1, st_errors = 1\<rparr>)"
  by code_simp

section \<open>Similarity of empty keyword sets\<close>

text \<open>
  C1. The claim: when the union of two keyword sets is empty, the similarity computed
  during category merging is 0 and no division by zero is raised. The program divides by
  the size of the union without a test: for two empty sets the division raises
  \<^verbatim>\<open>ZeroDivisionError\<close>, and so does \<^verbatim>\<open>merge_categories\<close> on two files of different
  categories that both have no keywords, whatever the naming request answers.
\<close>

theorem empty_keyword_sets_raise:
  "similarity {} {} = Inl ZeroDivisionError
   \<and> merge_categories namer
        [(''/in/a.txt'', ''Misc'', ''a.txt'', []), (''/in/b.txt'', ''Docs'', ''notes.txt'', [])]
      = Inl ZeroDivisionError"
  by (simp add: similarity_def merge_categories_def merge_run_def category_keywords_def)

section \<open>The clusters partition the categories and the files\<close>

text \<open>
  C4. Whenever \<^verbatim>\<open>merge_categories\<close> returns, every raw category occurs exactly once in
  the concatenation of the clusters (so it is in exactly one cluster, once), and the
  member lists of the merged groups hold every file of the input exactly once: as
  multisets, the members of all groups are the files of the input. The function returns
  when no two categories have keyword sets whose union is empty (lemma
  \<open>merge_run_returns\<close>); otherwise see C1.
\<close>

theorem clusters_partition_categories:
  assumes "merge_run namer fd = Inr st"
  shows "distinct (concat (map snd (clusters st)))
       \<and> set (concat (map snd (clusters st))) = cat_of ` set fd
       \<and> merge_categories namer fd = Inr (merged st)
       \<and> mset (all_files (merged st)) = mset (map file_of fd)"
  using merge_run_invariant [OF assms] assms by (simp add: merge_categories_def)

theorem clusters_partition_categories_witness:
  "merge_run (\<lambda>_. Raised) scenario_files = Inr scenario_state
   \<and> distinct (concat (map snd (clusters scenario_state)))
   \<and> set (concat (map snd (clusters scenario_state))) = cat_of ` set scenario_files
   \<and> merge_categories (\<lambda>_. Raised) scenario_files = Inr (merged scenario_state)
   \<and> mset (all_files (merged scenario_state)) = mset (map file_of scenario_files)"
  using clusters_partition_categories [OF scenario_run] scenario_run by simp

section \<open>The clusters are the seed neighbourhoods of the specification\<close>



section \<open>Two runs of the grouper\<close>

text \<open>
  C9. Two runs of the grouper on inputs with the same categories in the same first-seen
  order and the same keyword profiles form the same clusters (or raise the same fault),
  whatever the files are and whatever the naming requests answer in either run.
\<close>

theorem grouper_deterministic:
  assumes "category_keywords fd1 = category_keywords fd2"
  shows "grouping (merge_run n1 fd1) = grouping (merge_run n2 fd2)"
proof -
  let ?st0 = "\<lparr>merged = [], processed = {}, clusters = []\<rparr>"
  have "map_sum id (\<lambda>s. (processed s, map snd (clusters s)))
          (merge_loop n1 fd1 (category_keywords fd1) (category_keywords fd1) ?st0)
      = map_sum id (\<lambda>s. (processed s, map snd (clusters s)))
          (merge_loop n2 fd2 (category_keywords fd1) (category_keywords fd1) ?st0)"
    by (rule merge_loop_lockstep) simp_all
  then have "map_sum id snd (map_sum id (\<lambda>s. (processed s, map snd (clusters s))) (merge_run n1 fd1))
           = map_sum id snd (map_sum id (\<lambda>s. (processed s, map snd (clusters s))) (merge_run n2 fd2))"
    using assms by (simp add: merge_run_def)
  then show ?thesis by (simp add: grouping_def sum.map_comp comp_def id_def)
qed

theorem grouper_deterministic_witness:
  "category_keywords scenario_files = category_keywords scenario_files_renamed
   \<and> grouping (merge_run (\<lambda>_. Raised) scenario_files)
       = grouping (merge_run (\<lambda>_. Content ''Art'') scenario_files_renamed)
   \<and> grouping (merge_run (\<lambda>_. Raised) scenario_files)
       = Inr [[''Modelling'', ''GameDev''], [''WebDev'']]"
  using grouper_deterministic [OF scenario_profiles_equal, of "\<lambda>_. Raised" "\<lambda>_. Content ''Art''"]
    scenario_profiles_equal scenario_run
  by (simp add: grouping_def scenario_state_def)

section \<open>The name of a group when the naming request fails\<close>

text \<open>
  C8. For a list of more than one category whose naming request raises,
  \<^verbatim>\<open>get_merged_category_name\<close> returns the first category of the list and raises
  nothing. In a run, the cluster recorded with its name is a subsequence of the
  categories in first-seen order, so its first member is the first one seen, and this
  is the name of its group. (The only exception that leaves the merging loop is the
  division by zero: lemma \<open>merge_run_error\<close>.)
\<close>

theorem naming_failure_falls_back:
  assumes "1 < length cats" and "namer cats = Raised"
  shows "get_merged_category_name namer cats = Inr (hd cats)
       \<and> (\<forall>fd st name. merge_run namer fd = Inr st \<and> (name, cats) \<in> set (clusters st)
             \<longrightarrow> name = hd cats \<and> subseq cats (first_seen (map cat_of fd)))"
proof -
  have f: "get_merged_category_name namer cats = Inr (hd cats)"
    using assms by (cases cats) (simp_all add: get_merged_category_name_def)
  show ?thesis
  proof (intro conjI allI impI)
    show "get_merged_category_name namer cats = Inr (hd cats)" by (rule f)
  next
    fix fd st name
    assume h: "merge_run namer fd = Inr st \<and> (name, cats) \<in> set (clusters st)"
    then show "name = hd cats" using merge_run_clusters_ordered(1) [of namer fd st name cats] f
      by simp
  next
    fix fd st name
    assume h: "merge_run namer fd = Inr st \<and> (name, cats) \<in> set (clusters st)"
    then show "subseq cats (first_seen (map cat_of fd))"
      using merge_run_clusters_ordered(2) [of namer fd st name cats] by simp
  qed
qed

theorem naming_failure_falls_back_witness:
  "1 < length [''Modelling'', ''GameDev''] \<and> (\<lambda>_. Raised) [''Modelling'', ''GameDev''] = Raised
   \<and> get_merged_category_name (\<lambda>_. Raised) [''Modelling'', ''GameDev''] = Inr ''Modelling''
   \<and> merge_run (\<lambda>_. Raised) scenario_files = Inr scenario_state
   \<and> (''Modelling'', [''Modelling'', ''GameDev'']) \<in> set (clusters scenario_state)
   \<and> subseq [''Modelling'', ''GameDev''] (first_seen (map cat_of scenario_files))"
proof -
  have m: "(''Modelling'', [''Modelling'', ''GameDev'']) \<in> set (clusters scenario_state)"
    by (simp add: scenario_state_def)
  have h1: "1 < length [''Modelling'', ''GameDev'']" by simp
  have h2: "(\<lambda>_. Raised) [''Modelling'', ''GameDev''] = Raised" by simp
  note t = naming_failure_falls_back [OF h1 h2]
  from t have f: "get_merged_category_name (\<lambda>_. Raised) [''Modelling'', ''GameDev'']
                    = Inr (hd [''Modelling'', ''GameDev''])"
    by (rule conjunct1)
  from t scenario_run m
  have "subseq [''Modelling'', ''GameDev''] (first_seen (map cat_of scenario_files))"
    by blast
  with f scenario_run m show ?thesis by simp
qed

section \<open>Groups are keyed by their display name\<close>

text \<open>
  C10. Whenever \<^verbatim>\<open>merge_categories\<close> returns, the keys of the dictionary of groups are
  pairwise distinct, and the members of the group keyed \<open>n\<close> are exactly the files of
  all the clusters that were named \<open>n\<close>: clusters with the same display name share one
  group. So there are at most as many groups as clusters, and there can be fewer: in the
  concrete run below two clusters give one group.
\<close>

theorem groups_keyed_by_display_name:
  "(merge_run namer fd = Inr st \<longrightarrow>
      distinct (map fst (merged st))
      \<and> (\<forall>n f. in_group (merged st) n f
                 = (\<exists>cs. (n, cs) \<in> set (clusters st) \<and> f \<in> cluster_files fd cs))
      \<and> length (merged st) \<le> length (clusters st))
   \<and> merge_run collide_namer collide_files = Inr collide_state
   \<and> length (merged collide_state) < length (clusters collide_state)"
proof (intro conjI impI allI)
  assume r: "merge_run namer fd = Inr st"
  show "distinct (map fst (merged st))" by (rule merge_run_groups(1) [OF r])
  show "length (merged st) \<le> length (clusters st)" by (rule merge_run_group_count [OF r])
  fix n f
  show "in_group (merged st) n f
          = (\<exists>cs. (n, cs) \<in> set (clusters st) \<and> f \<in> cluster_files fd cs)"
    by (rule merge_run_groups(3) [OF r])
next
  show "merge_run collide_namer collide_files = Inr collide_state" by (rule collide_run)
  show "length (merged collide_state) < length (clusters collide_state)"
    by (simp add: collide_state_def)
qed

theorem groups_keyed_by_display_name_witness:
  "merge_run collide_namer collide_files = Inr collide_state
   \<and> distinct (map fst (merged collide_state))
   \<and> in_group (merged collide_state) ''Images'' (''/in/a.png'', ''a.png'')
   \<and> in_group (merged collide_state) ''Images'' (''/in/c.gif'', ''c.gif'')
   \<and> length (merged collide_state) \<le> length (clusters collide_state)"
proof -
  have "in_group (merged collide_state) ''Images'' (''/in/a.png'', ''a.png'')"
    "in_group (merged collide_state) ''Images'' (''/in/c.gif'', ''c.gif'')"
    by (simp_all add: in_group_def collide_state_def)
  with groups_keyed_by_display_name [of collide_namer collide_files collide_state] collide_run
  show ?thesis by simp
qed


section \<open>A classification failure\<close>

text \<open>
  C6. The claim: when the classification call of a file fails, the analysis returns the
  category \<open>Misc\<close>, the original file name and no keywords, and the failure never aborts
  the run. The first part holds for every file name. The second does not: in the run
  below one file's classification raises and the answer for another file has no keyword
  line, so two categories have empty keyword sets and the division by zero of C1 leaves
  \<^verbatim>\<open>organize_files\<close>, in a dry run and in a real run.
\<close>

theorem classification_failure_aborts_run:
  "analyze_filename Raised filename = (''Misc'', filename, [])
   \<and> organize_files abort_world ''/in'' ''/out'' dry_run = Some (Inl ZeroDivisionError)"
proof
  show "analyze_filename Raised filename = (''Misc'', filename, [])"
    by (simp add: analyze_filename_def split: prod.splits)
  have "organize_files abort_world ''/in'' ''/out'' True = Some (Inl ZeroDivisionError)"
    by code_simp
  moreover have "organize_files abort_world ''/in'' ''/out'' False = Some (Inl ZeroDivisionError)"
    by code_simp
  ultimately show "organize_files abort_world ''/in'' ''/out'' dry_run = Some (Inl ZeroDivisionError)"
    by (cases dry_run) simp_all
qed

section \<open>The statistics of a run\<close>

text \<open>
  C7. The claim: \<open>processed\<close> is the number of files discovered, \<open>moved\<close> the number of
  successful relocations (zero in a dry run), and \<open>errors\<close> the number of move failures
  plus the number of classification failures. The last part fails: in the run below the
  only file's classification raises, its move succeeds, and \<open>errors\<close> is \<open>0\<close>.
\<close>

theorem classification_failure_not_counted:
  "run_stats (organize_files misc_world ''/in'' ''/out'' False)
     = Some (Inr \<lparr>st_processed = 1, st_moved = 1, st_errors = 0\<rparr>)
   \<and> w_rglob misc_world ''/in'' = [''/in/a.txt'']
   \<and> w_llm misc_world ''/in/a.txt'' = Raised"
  by code_simp

text \<open>
  C7 as amended. On a finite file system \<^verbatim>\<open>organize_files\<close> returns, with the
  statistics or with an exception. Whenever it returns the statistics:
  \<open>processed\<close> is the number of files discovered, each of which is handled by exactly one
  iteration of the loop that moves the files; \<open>moved\<close> is the number of iterations in
  which \<^verbatim>\<open>shutil.move\<close> was called and returned normally, after which the file is at
  its destination; it is zero in a dry run, which leaves the file system as it was;
  \<open>errors\<close> is the number of iterations that raised: the existence test raised (no
  destination is resolved then), the move raised, or the report raised, be it after
  a successful move or in a dry run. Classification failures are not counted. In a
  real run an iteration that does not move its file raises, so \<open>moved\<close> and \<open>errors\<close> add
  up to at least \<open>processed\<close>.
\<close>

theorem run_statistics:
  "(finite (fs_files (w_fs w)) \<and> finite (fs_dirs (w_fs w))
      \<longrightarrow> organize_files w source_path target_path dry_run \<noteq> None)
   \<and> (\<forall>st. organize_files w source_path target_path dry_run = Some (Inr st) \<longrightarrow>
         (\<exists>fs0. start_fs w target_path dry_run = Inr fs0
            \<and> st_processed (r_stats st) = length (discovered w fs0 source_path)
            \<and> mset (map d_source (r_trace st)) = mset (discovered w fs0 source_path))
       \<and> st_processed (r_stats st) = length (r_trace st)
       \<and> st_moved (r_stats st) = length (filter d_moved (r_trace st))
       \<and> st_errors (r_stats st) = length (filter d_raised (r_trace st))
       \<and> (\<forall>e\<in>set (r_trace st).
            (d_dest e = None \<longleftrightarrow>
               resolve_destination (w_stat_raises w) (d_seen e)
                 (joinpath target_path (d_category e)) (d_name e) = Some (Inl PermissionError))
          \<and> (\<forall>d. d_dest e = Some d \<longleftrightarrow>
               resolve_destination (w_stat_raises w) (d_seen e)
                 (joinpath target_path (d_category e)) (d_name e) = Some (Inr d))
          \<and> (d_moved e \<longleftrightarrow>
               \<not> dry_run \<and> (\<exists>d. d_dest e = Some d
                          \<and> fst (shutil_move (w_mover w) (d_seen e) (d_source e) d)))
          \<and> (\<forall>d. d_moved e \<and> d_dest e = Some d \<longrightarrow>
               file_at (snd (shutil_move (w_mover w) (d_seen e) (d_source e) d)) d)
          \<and> (d_raised e \<longleftrightarrow>
               d_dest e = None \<or> (\<not> dry_run \<and> \<not> d_moved e)
               \<or> (\<exists>d. d_dest e = Some d
                      \<and> w_print_raises w dry_run (path_name (d_source e)) (d_category e)
                          (path_name d))))
       \<and> (dry_run \<longrightarrow> st_moved (r_stats st) = 0 \<and> r_fs st = w_fs w)
       \<and> (\<not> dry_run \<longrightarrow>
            st_processed (r_stats st) \<le> st_moved (r_stats st) + st_errors (r_stats st)))"
proof (intro conjI impI allI)
  assume "finite (fs_files (w_fs w)) \<and> finite (fs_dirs (w_fs w))"
  then show "organize_files w source_path target_path dry_run \<noteq> None"
    using organize_files_terminates [of w source_path target_path dry_run] by auto
qed (use organize_files_statistics in blast)+

theorem run_statistics_witness:
  "finite (fs_files (w_fs fault_world)) \<and> finite (fs_dirs (w_fs fault_world))
   \<and> organize_files fault_world ''/in'' ''/out'' False = Some (Inr fault_state)
   \<and> start_fs fault_world ''/out'' False = Inr fault_fs_target
   \<and> discovered fault_world fault_fs_target ''/in''
       = [''/in/a.txt'', ''/in/b.txt'', ''/in/c.txt'', ''/in/d.txt'']
   \<and> st_processed (r_stats fault_state) = 4
   \<and> st_moved (r_stats fault_state) = length (filter d_moved (r_trace fault_state))
   \<and> st_moved (r_stats fault_state) = 2
   \<and> st_errors (r_stats fault_state) = length (filter d_raised (r_trace fault_state))
   \<and> st_errors (r_stats fault_state) = 3
   \<and> map d_dest (r_trace fault_state)
       = [Some ''/out/Misc/a.txt'', Some ''/out/Misc/b.txt'', None, Some ''/out/Misc/d.txt'']
   \<and> map d_moved (r_trace fault_state) = [True, False, False, True]
   \<and> map d_raised (r_trace fault_state) = [False, True, True, True]"
proof -
  have fin: "finite (fs_files (w_fs fault_world)) \<and> finite (fs_dirs (w_fs fault_world))"
    by (simp add: fault_world_def)
  have "start_fs fault_world ''/out'' False = Inr fault_fs_target"
    and "discovered fault_world fault_fs_target ''/in''
       = [''/in/a.txt'', ''/in/b.txt'', ''/in/c.txt'', ''/in/d.txt'']"
    by code_simp+
  moreover from run_statistics [of fault_world "''/in''" "''/out''" False] fault_run
  have "st_moved (r_stats fault_state) = length (filter d_moved (r_trace fault_state))"
    and "st_errors (r_stats fault_state) = length (filter d_raised (r_trace fault_state))"
    by blast+
  ultimately show ?thesis using fin fault_run by (simp add: fault_state_def)
qed

section \<open>Dry run and real run\<close>




section \<open>Distinct destinations\<close>




end
